theory Spec2Isabelle
  imports Complex_Main "HOL-Library.Word"
begin

section \<open>The standard library the effect engines are written against\<close>

subsection \<open>Run-time panics\<close>

text \<open>
  A Go run-time panic ends the call without a result. The engines can panic in a slice
  allocation with a negative length, a slice index out of range, an integer division by
  zero, and in \<^verbatim>\<open>image.NewRGBA\<close> on a rectangle with a negative dimension.

  Go's \<^verbatim>\<open>int\<close> is modelled by the integers: the overflow of 64-bit arithmetic on
  coordinates, indices and counters is not modelled.
\<close>

datatype panic = NegativeLen | IndexOutOfRange | DivideByZero | BadRectangle

fun fold_r :: "('a \<Rightarrow> 'b \<Rightarrow> panic + 'b) \<Rightarrow> 'a list \<Rightarrow> 'b \<Rightarrow> panic + 'b" where
  "fold_r f [] acc = Inr acc"
| "fold_r f (x # xs) acc =
     (case f x acc of Inl e \<Rightarrow> Inl e | Inr acc' \<Rightarrow> fold_r f xs acc')"

text \<open>Sequencing: a panic ends the call.\<close>

definition bind_r :: "panic + 'a \<Rightarrow> ('a \<Rightarrow> panic + 'b) \<Rightarrow> panic + 'b" where
  "bind_r m f = (case m of Inl e \<Rightarrow> Inl e | Inr v \<Rightarrow> f v)"

text \<open>Slice reads and writes \<^verbatim>\<open>xs[i]\<close>, \<^verbatim>\<open>xs[i] = v\<close> with Go's bounds check.\<close>

definition index_r :: "'a list \<Rightarrow> int \<Rightarrow> panic + 'a" where
  "index_r xs i =
     (if 0 \<le> i \<and> i < int (length xs) then Inr (xs ! nat i) else Inl IndexOutOfRange)"

definition store_r :: "'a list \<Rightarrow> int \<Rightarrow> 'a \<Rightarrow> panic + 'a list" where
  "store_r xs i v =
     (if 0 \<le> i \<and> i < int (length xs) then Inr (xs[nat i := v]) else Inl IndexOutOfRange)"

text \<open>\<^verbatim>\<open>make([]T, n)\<close>: a zeroed slice, or a panic on a negative length.\<close>

definition make_r :: "int \<Rightarrow> 'a \<Rightarrow> panic + 'a list" where
  "make_r n z = (if n < 0 then Inl NegativeLen else Inr (replicate (nat n) z))"

text \<open>Go's integer division and remainder truncate towards zero.\<close>

definition go_quo :: "int \<Rightarrow> int \<Rightarrow> int" where
  "go_quo a b = sgn a * sgn b * (\<bar>a\<bar> div \<bar>b\<bar>)"

definition go_rem :: "int \<Rightarrow> int \<Rightarrow> int" where
  "go_rem a b = sgn a * (\<bar>a\<bar> mod \<bar>b\<bar>)"

subsection \<open>Rectangles and colours\<close>

record rectangle =
  MinX :: int
  MinY :: int
  MaxX :: int
  MaxY :: int

definition Dx :: "rectangle \<Rightarrow> int" where
  "Dx r = MaxX r - MinX r"

definition Dy :: "rectangle \<Rightarrow> int" where
  "Dy r = MaxY r - MinY r"

text \<open>\<^verbatim>\<open>Point{x, y}.In(r)\<close>.\<close>

definition point_In :: "int \<Rightarrow> int \<Rightarrow> rectangle \<Rightarrow> bool" where
  "point_In x y r \<longleftrightarrow> MinX r \<le> x \<and> x < MaxX r \<and> MinY r \<le> y \<and> y < MaxY r"

text \<open>
  A value of the interface \<^verbatim>\<open>color.Color\<close> is observed by the engines only through its
  method \<^verbatim>\<open>RGBA()\<close>, which returns four \<^verbatim>\<open>uint32\<close> channels.
\<close>

record color =
  chanR :: "32 word"
  chanG :: "32 word"
  chanB :: "32 word"
  chanA :: "32 word"

text \<open>The struct \<^verbatim>\<open>color.RGBA\<close>: four \<^verbatim>\<open>uint8\<close> channels.\<close>

record rgba =
  rgbaR :: "8 word"
  rgbaG :: "8 word"
  rgbaB :: "8 word"
  rgbaA :: "8 word"

definition rgba_zero :: rgba where
  "rgba_zero = \<lparr>rgbaR = 0, rgbaG = 0, rgbaB = 0, rgbaA = 0\<rparr>"

definition color_zero :: color where
  "color_zero = \<lparr>chanR = 0, chanG = 0, chanB = 0, chanA = 0\<rparr>"

text \<open>
  \<^verbatim>\<open>func (c RGBA) RGBA() (r, g, b, a uint32)\<close>: each channel \<^verbatim>\<open>v\<close> becomes
  \<^verbatim>\<open>uint32(v) | uint32(v) << 8\<close>.
\<close>

definition widen8 :: "8 word \<Rightarrow> 32 word" where
  "widen8 v = or (ucast v) (push_bit 8 (ucast v))"

definition rgba_RGBA :: "rgba \<Rightarrow> color" where
  "rgba_RGBA c =
     \<lparr>chanR = widen8 (rgbaR c), chanG = widen8 (rgbaG c),
      chanB = widen8 (rgbaB c), chanA = widen8 (rgbaA c)\<rparr>"

text \<open>
  \<^verbatim>\<open>color.RGBAModel.Convert\<close>: a \<^verbatim>\<open>color.RGBA\<close> is returned as it is, any other colour
  as \<^verbatim>\<open>RGBA{uint8(r >> 8), uint8(g >> 8), uint8(b >> 8), uint8(a >> 8)}\<close>; on a
  \<^verbatim>\<open>color.RGBA\<close> the second form gives the same value back.
\<close>

definition narrow8 :: "32 word \<Rightarrow> 8 word" where
  "narrow8 v = ucast (drop_bit 8 v)"

definition RGBAModel_Convert :: "color \<Rightarrow> rgba" where
  "RGBAModel_Convert c =
     \<lparr>rgbaR = narrow8 (chanR c), rgbaG = narrow8 (chanG c),
      rgbaB = narrow8 (chanB c), rgbaA = narrow8 (chanA c)\<rparr>"

subsection \<open>Images\<close>

text \<open>
  The input layer is an in-memory raster read through \<^verbatim>\<open>Bounds()\<close> and \<^verbatim>\<open>At(x, y)\<close>.
  As for \<^verbatim>\<open>*image.RGBA\<close>, a read outside the bounds gives the zero colour.
\<close>

record image =
  Bounds :: rectangle
  Pixels :: "int \<Rightarrow> int \<Rightarrow> color"

definition image_At :: "image \<Rightarrow> int \<Rightarrow> int \<Rightarrow> color" where
  "image_At img x y = (if point_In x y (Bounds img) then Pixels img x y else color_zero)"

text \<open>
  \<^verbatim>\<open>image.RGBA\<close>: the pixel slice, the stride and the rectangle. The model keeps one
  \<^verbatim>\<open>color.RGBA\<close> per pixel where Go keeps four bytes, so the stride and the offsets count
  pixels.
\<close>

record rgba_image =
  Pix :: "rgba list"
  Stride :: int
  Rect :: rectangle

definition NewRGBA :: "rectangle \<Rightarrow> panic + rgba_image" where
  "NewRGBA r =
     (if Dx r < 0 \<or> Dy r < 0 then Inl BadRectangle
      else Inr \<lparr>Pix = replicate (nat (Dx r * Dy r)) rgba_zero, Stride = Dx r, Rect = r\<rparr>)"

definition PixOffset :: "rgba_image \<Rightarrow> int \<Rightarrow> int \<Rightarrow> int" where
  "PixOffset p x y = (y - MinY (Rect p)) * Stride p + (x - MinX (Rect p))"

definition RGBA_At :: "rgba_image \<Rightarrow> int \<Rightarrow> int \<Rightarrow> rgba" where
  "RGBA_At p x y =
     (if \<not> point_In x y (Rect p) then rgba_zero else Pix p ! nat (PixOffset p x y))"

definition RGBA_Set :: "rgba_image \<Rightarrow> int \<Rightarrow> int \<Rightarrow> rgba \<Rightarrow> rgba_image" where
  "RGBA_Set p x y c =
     (if \<not> point_In x y (Rect p) then p
      else p\<lparr>Pix := (Pix p)[nat (PixOffset p x y) := c]\<rparr>)"

text \<open>The alpha channel as the engines read it: \<^verbatim>\<open>_, _, _, a := img.At(x, y).RGBA()\<close>.\<close>

definition layer_alpha :: "image \<Rightarrow> int \<Rightarrow> int \<Rightarrow> 32 word" where
  "layer_alpha layer x y = chanA (image_At layer x y)"

definition effect_alpha :: "rgba_image \<Rightarrow> int \<Rightarrow> int \<Rightarrow> 32 word" where
  "effect_alpha p x y = chanA (rgba_RGBA (RGBA_At p x y))"

text \<open>
  The cells visited by the nested loops
  \<^verbatim>\<open>for i := -1; i <= 1; i++ { if x+i < Min.X || x+i >= Max.X { continue };
     for j := -1; j <= 1; j++ { if y+j < Min.Y || y+j >= Max.Y { continue }; ... } }\<close>
  in the order of the visit.
\<close>

definition neighbors3x3 :: "rectangle \<Rightarrow> int \<Rightarrow> int \<Rightarrow> (int \<times> int) list" where
  "neighbors3x3 bounds x y =
     concat (map (\<lambda>i. if x + i < MinX bounds \<or> x + i \<ge> MaxX bounds then []
                      else concat (map (\<lambda>j. if y + j < MinY bounds \<or> y + j \<ge> MaxY bounds then []
                                            else [(x + i, y + j)]) [-1, 0, 1]))
                 [-1, 0, 1])"

text \<open>
  A counter over these cells: \<^verbatim>\<open>var numNeighbors int\<close>, and in the loop body
  \<^verbatim>\<open>if ... { numNeighbors++ }\<close>.
\<close>

definition count_cells :: "(int \<times> int \<Rightarrow> bool) \<Rightarrow> (int \<times> int) list \<Rightarrow> int" where
  "count_cells P cells = fold (\<lambda>p n. if P p then n + 1 else n) cells 0"

subsection \<open>Floating point and the random source\<close>

text \<open>
  The gradient is computed in \<^verbatim>\<open>float64\<close>. The arithmetic is a parameter of the model:
  the conversion \<^verbatim>\<open>float64(n)\<close>, the quotient, the difference, the expression
  \<^verbatim>\<open>x + p*d\<close> (which a Go compiler may or may not fuse) and the conversion
  \<^verbatim>\<open>uint16(f)\<close>.
\<close>

record 'f float64_ops =
  f64_of_int :: "int \<Rightarrow> 'f"
  f64_quo :: "'f \<Rightarrow> 'f \<Rightarrow> 'f"
  f64_sub :: "'f \<Rightarrow> 'f \<Rightarrow> 'f"
  f64_muladd :: "'f \<Rightarrow> 'f \<Rightarrow> 'f \<Rightarrow> 'f"
  f64_to_uint16 :: "'f \<Rightarrow> 16 word"

text \<open>
  Exact rational arithmetic, with the conversion to \<^verbatim>\<open>uint16\<close> truncating towards zero.
  It agrees with \<^verbatim>\<open>float64\<close> wherever every intermediate value is a \<^verbatim>\<open>float64\<close>, as for
  a gradient of two or three colours.
\<close>

definition exact_ops :: "rat float64_ops" where
  "exact_ops =
     \<lparr>f64_of_int = of_int, f64_quo = (\<lambda>a b. a / b), f64_sub = (\<lambda>a b. a - b),
      f64_muladd = (\<lambda>x p d. x + p * d),
      f64_to_uint16 = (\<lambda>q. word_of_int (if 0 \<le> q then \<lfloor>q\<rfloor> else \<lceil>q\<rceil>))\<rparr>"

text \<open>
  The package-level generator of \<^verbatim>\<open>math/rand\<close>, with its state made explicit. A sample
  of \<^verbatim>\<open>rand.Float64()\<close> is the real number the \<^verbatim>\<open>float64\<close> denotes; comparing two
  \<^verbatim>\<open>float64\<close> values compares these numbers.
\<close>

record 's rand_source =
  rand_Float64 :: "'s \<Rightarrow> real \<times> 's"
  rand_Intn :: "int \<Rightarrow> 's \<Rightarrow> int \<times> 's"
  rand_Perm :: "int \<Rightarrow> 's \<Rightarrow> int list \<times> 's"

text \<open>The \<^verbatim>\<open>float64\<close> nearest to the constants \<^verbatim>\<open>0.5\<close>, \<^verbatim>\<open>0.2\<close> and \<^verbatim>\<open>0.1\<close>.\<close>

definition float64_0_5 :: real where
  "float64_0_5 = 1 / 2"

definition float64_0_2 :: real where
  "float64_0_2 = 3602879701896397 / 18014398509481984"

definition float64_0_1 :: real where
  "float64_0_1 = 3602879701896397 / 36028797018963968"

section \<open>The gradient\<close>

text \<open>\<^verbatim>\<open>uint8(v >> 8)\<close> on a \<^verbatim>\<open>uint16\<close>.\<close>

definition high_byte :: "16 word \<Rightarrow> 8 word" where
  "high_byte v = ucast (drop_bit 8 v)"

definition interpolate_channel :: "'f float64_ops \<Rightarrow> 32 word \<Rightarrow> 32 word \<Rightarrow> 'f \<Rightarrow> 16 word" where
  "interpolate_channel F vA vB percentage =
     f64_to_uint16 F
       (f64_muladd F (f64_of_int F (uint vA)) percentage
          (f64_sub F (f64_of_int F (uint vB)) (f64_of_int F (uint vA))))"

definition interpolateColor :: "'f float64_ops \<Rightarrow> color \<Rightarrow> color \<Rightarrow> 'f \<Rightarrow> rgba" where
  "interpolateColor F colorA colorB percentage =
     (let r = interpolate_channel F (chanR colorA) (chanR colorB) percentage;
          g = interpolate_channel F (chanG colorA) (chanG colorB) percentage;
          b = interpolate_channel F (chanB colorA) (chanB colorB) percentage;
          a = interpolate_channel F (chanA colorA) (chanA colorB) percentage
      in \<lparr>rgbaR = high_byte r, rgbaG = high_byte g, rgbaB = high_byte b, rgbaA = high_byte a\<rparr>)"

text \<open>
  \<^verbatim>\<open>gradient := make([]color.Color, numColors)\<close> and the loop that fills it with
  \<^verbatim>\<open>interpolateColor(colorA, colorB, float64(i) / float64(numColors-1))\<close>.
\<close>

definition build_gradient ::
  "'f float64_ops \<Rightarrow> color \<Rightarrow> color \<Rightarrow> int \<Rightarrow> panic + rgba list" where
  "build_gradient F colorA colorB numColors =
     (if numColors < 0 then Inl NegativeLen
      else Inr (map (\<lambda>i. interpolateColor F colorA colorB
                           (f64_quo F (f64_of_int F i) (f64_of_int F (numColors - 1))))
                    [0..numColors - 1]))"

section \<open>The directional engine\<close>

definition DirectionUp :: int where
  "DirectionUp = 1"

definition DirectionDown :: int where
  "DirectionDown = -1"

definition minNeighbors :: int where
  "minNeighbors = 3"

text \<open>The count of the cells of the 3x3 block that are set on either layer.\<close>

definition effect_numNeighbors :: "image \<Rightarrow> rgba_image \<Rightarrow> rectangle \<Rightarrow> int \<Rightarrow> int \<Rightarrow> int" where
  "effect_numNeighbors layer effectLayer bounds x y =
     count_cells (\<lambda>(u, v). layer_alpha layer u v \<noteq> 0 \<or> effect_alpha effectLayer u v \<noteq> 0)
       (neighbors3x3 bounds x y)"

text \<open>
  The condition
  \<^verbatim>\<open>(numNeighbors < minNeighbors && rand.Float64() < 0.5) || rand.Float64() < 0.2\<close>
  with the samples drawn in the order of evaluation.
\<close>

definition effect_thinning :: "'s rand_source \<Rightarrow> int \<Rightarrow> 's \<Rightarrow> bool \<times> 's" where
  "effect_thinning rnd numNeighbors s =
     (if numNeighbors < minNeighbors then
        (let (r1, s1) = rand_Float64 rnd s in
         if r1 < float64_0_5 then (True, s1)
         else (let (r2, s2) = rand_Float64 rnd s1 in (r2 < float64_0_2, s2)))
      else (let (r2, s2) = rand_Float64 rnd s in (r2 < float64_0_2, s2)))"

text \<open>
  \<^verbatim>\<open>var index int; for i, c := range gradient { if c == p { index = i; break } }\<close>
\<close>

fun gradient_index :: "rgba list \<Rightarrow> rgba \<Rightarrow> int \<Rightarrow> int" where
  "gradient_index [] p i = 0"
| "gradient_index (c # cs) p i = (if c = p then i else gradient_index cs p (i + 1))"

text \<open>The body of the inner loop of \<^verbatim>\<open>applyEffect\<close> at the pixel \<open>(x, y)\<close>.\<close>

definition effect_pixel ::
  "'s rand_source \<Rightarrow> image \<Rightarrow> rgba list \<Rightarrow> int \<Rightarrow> int \<Rightarrow> int \<Rightarrow> int
     \<Rightarrow> rgba_image \<times> 's \<Rightarrow> panic + rgba_image \<times> 's" where
  "effect_pixel rnd layer gradient numColors direction y x st =
     (let (effectLayer, s) = st;
          bounds = Bounds layer;
          a = layer_alpha layer x y;
          aNeighbor = layer_alpha layer x (y + direction);
          aEffectNeighbor = effect_alpha effectLayer x (y + direction)
      in if a \<noteq> 0 then Inr st
         else if aNeighbor \<noteq> 0 then
           (case index_r gradient 0 of
              Inl e \<Rightarrow> Inl e
            | Inr c \<Rightarrow> Inr (RGBA_Set effectLayer x y c, s))
         else if aEffectNeighbor \<noteq> 0 then
           (let numNeighbors = effect_numNeighbors layer effectLayer bounds x y;
                (skip, s') = effect_thinning rnd numNeighbors s
            in if skip then Inr (effectLayer, s')
               else
                 (let index = gradient_index gradient (RGBA_At effectLayer x (y + direction)) 0
                  in if index < numColors - 1 then
                       (case index_r gradient (index + 1) of
                          Inl e \<Rightarrow> Inl e
                        | Inr c \<Rightarrow> Inr (RGBA_Set effectLayer x y c, s'))
                     else Inr (effectLayer, s')))
         else Inr st)"

text \<open>\<^verbatim>\<open>for x := bounds.Min.X; x < bounds.Max.X; x++ { ... }\<close>\<close>

definition effect_row ::
  "'s rand_source \<Rightarrow> image \<Rightarrow> rgba list \<Rightarrow> int \<Rightarrow> int \<Rightarrow> int
     \<Rightarrow> rgba_image \<times> 's \<Rightarrow> panic + rgba_image \<times> 's" where
  "effect_row rnd layer gradient numColors direction y st =
     fold_r (effect_pixel rnd layer gradient numColors direction y)
       [MinX (Bounds layer)..MaxX (Bounds layer) - 1] st"

text \<open>
  \<^verbatim>\<open>for y := startY; y >= bounds.Min.Y && y < bounds.Max.Y; y -= direction { ... }\<close>
  The loop need not end (a direction of 0 never leaves the row): not returning is
  \<open>None\<close>.
\<close>

partial_function (option) effect_rows ::
  "'s rand_source \<Rightarrow> image \<Rightarrow> rgba list \<Rightarrow> int \<Rightarrow> int \<Rightarrow> int
     \<Rightarrow> rgba_image \<times> 's \<Rightarrow> (panic + rgba_image \<times> 's) option" where
  "effect_rows rnd layer gradient numColors direction y st =
     (if y \<ge> MinY (Bounds layer) \<and> y < MaxY (Bounds layer) then
        (case effect_row rnd layer gradient numColors direction y st of
           Inl e \<Rightarrow> Some (Inl e)
         | Inr st' \<Rightarrow> effect_rows rnd layer gradient numColors direction (y - direction) st')
      else Some (Inr st))"

declare effect_rows.simps [code]

definition applyEffect ::
  "'f float64_ops \<Rightarrow> 's rand_source \<Rightarrow> image \<Rightarrow> color \<Rightarrow> color \<Rightarrow> int \<Rightarrow> int \<Rightarrow> 's
     \<Rightarrow> (panic + rgba_image \<times> 's) option" where
  "applyEffect F rnd layer colorA colorB numColors direction s =
     (let bounds = Bounds layer in
      case NewRGBA bounds of
        Inl e \<Rightarrow> Some (Inl e)
      | Inr effectLayer \<Rightarrow>
          (case build_gradient F colorA colorB numColors of
             Inl e \<Rightarrow> Some (Inl e)
           | Inr gradient \<Rightarrow>
               (let startY = (if direction = -1 then MinY bounds else MaxY bounds - 1)
                in effect_rows rnd layer gradient numColors direction startY
                     (effectLayer, s))))"

definition ApplyFlameEffect ::
  "'f float64_ops \<Rightarrow> 's rand_source \<Rightarrow> image \<Rightarrow> color \<Rightarrow> color \<Rightarrow> 's
     \<Rightarrow> (panic + rgba_image \<times> 's) option" where
  "ApplyFlameEffect F rnd layer colorA colorB s =
     applyEffect F rnd layer colorA colorB 10 DirectionUp s"

definition ApplyDripEffect ::
  "'f float64_ops \<Rightarrow> 's rand_source \<Rightarrow> image \<Rightarrow> color \<Rightarrow> color \<Rightarrow> 's
     \<Rightarrow> (panic + rgba_image \<times> 's) option" where
  "ApplyDripEffect F rnd layer colorA colorB s =
     applyEffect F rnd layer colorA colorB 15 DirectionDown s"

section \<open>The glow engine\<close>

definition glow_numColors :: int where
  "glow_numColors = 3"

text \<open>
  Pass 0 at \<open>(x, y)\<close>: around a pixel that is set on the layer, every cell of the
  3x3 block that is unset on both layers takes \<^verbatim>\<open>gradient[0]\<close>.
\<close>

definition glow_seed_pixel :: "image \<Rightarrow> rgba list \<Rightarrow> int \<Rightarrow> int \<Rightarrow> rgba_image \<Rightarrow> rgba_image" where
  "glow_seed_pixel layer gradient y x effectLayer =
     (if layer_alpha layer x y = 0 then effectLayer
      else fold (\<lambda>(u, v) e.
                   if layer_alpha layer u v \<noteq> 0 then e
                   else if effect_alpha e u v = 0 then RGBA_Set e u v (gradient ! 0)
                   else e)
             (neighbors3x3 (Bounds layer) x y) effectLayer)"

text \<open>The count of the cells of the 3x3 block set on the effect layer with a colour other than \<open>c\<close>.\<close>

definition glow_numNeighbors :: "rgba_image \<Rightarrow> rectangle \<Rightarrow> rgba \<Rightarrow> int \<Rightarrow> int \<Rightarrow> int" where
  "glow_numNeighbors effectLayer bounds c x y =
     count_cells (\<lambda>(u, v). effect_alpha effectLayer u v \<noteq> 0 \<and> RGBA_At effectLayer u v \<noteq> c)
       (neighbors3x3 bounds x y)"

text \<open>The last loop of a later pass: every unset cell of the 3x3 block takes \<open>c\<close>.\<close>

definition glow_fill :: "rectangle \<Rightarrow> rgba \<Rightarrow> int \<Rightarrow> int \<Rightarrow> rgba_image \<Rightarrow> rgba_image" where
  "glow_fill bounds c x y effectLayer =
     fold (\<lambda>(u, v) e. if effect_alpha e u v = 0 then RGBA_Set e u v c else e)
       (neighbors3x3 bounds x y) effectLayer"

text \<open>A pass with \<^verbatim>\<open>colorIndex != 0\<close> at \<open>(x, y)\<close>, under \<^verbatim>\<open>else if curPixelAlphaOrig == 0\<close>.\<close>

definition glow_propagate_pixel ::
  "'s rand_source \<Rightarrow> image \<Rightarrow> rgba \<Rightarrow> int \<Rightarrow> int \<Rightarrow> rgba_image \<times> 's \<Rightarrow> rgba_image \<times> 's" where
  "glow_propagate_pixel rnd layer c y x st =
     (let (effectLayer, s) = st;
          aEffect = effect_alpha effectLayer x y;
          effectCol = RGBA_At effectLayer x y
      in if aEffect = 0 \<or> effectCol = c then st
         else
           (let numNeighbors = glow_numNeighbors effectLayer (Bounds layer) c x y
            in if numNeighbors < minNeighbors then st
               else
                 (let (r, s') = rand_Float64 rnd s
                  in if r < float64_0_1 then (effectLayer, s')
                     else (glow_fill (Bounds layer) c x y effectLayer, s'))))"

text \<open>The body of the innermost loop of \<^verbatim>\<open>ApplyGlowEffect\<close>.\<close>

definition glow_pixel ::
  "'s rand_source \<Rightarrow> image \<Rightarrow> rgba list \<Rightarrow> nat \<Rightarrow> rgba \<Rightarrow> int \<Rightarrow> int
     \<Rightarrow> rgba_image \<times> 's \<Rightarrow> rgba_image \<times> 's" where
  "glow_pixel rnd layer gradient colorIndex c y x st =
     (let curPixelAlphaOrig = layer_alpha layer x y
      in if colorIndex = 0 then (glow_seed_pixel layer gradient y x (fst st), snd st)
         else if curPixelAlphaOrig = 0 then glow_propagate_pixel rnd layer c y x st
         else st)"

text \<open>
  \<^verbatim>\<open>for y := bounds.Min.Y; y < bounds.Max.Y; y++ { for x := bounds.Min.X; x < bounds.Max.X; x++ {\<close>
\<close>

definition glow_pass ::
  "'s rand_source \<Rightarrow> image \<Rightarrow> rgba list \<Rightarrow> nat \<times> rgba \<Rightarrow> rgba_image \<times> 's \<Rightarrow> rgba_image \<times> 's" where
  "glow_pass rnd layer gradient ic st =
     fold (\<lambda>y. fold (glow_pixel rnd layer gradient (fst ic) (snd ic) y)
                  [MinX (Bounds layer)..MaxX (Bounds layer) - 1])
       [MinY (Bounds layer)..MaxY (Bounds layer) - 1] st"

definition ApplyGlowEffect ::
  "'f float64_ops \<Rightarrow> 's rand_source \<Rightarrow> image \<Rightarrow> color \<Rightarrow> color \<Rightarrow> 's
     \<Rightarrow> panic + rgba_image \<times> 's" where
  "ApplyGlowEffect F rnd layer colorA colorB s =
     (case NewRGBA (Bounds layer) of
        Inl e \<Rightarrow> Inl e
      | Inr effectLayer \<Rightarrow>
          (case build_gradient F colorA colorB glow_numColors of
             Inl e \<Rightarrow> Inl e
           | Inr gradient \<Rightarrow>
               Inr (fold (glow_pass rnd layer gradient) (enumerate 0 gradient) (effectLayer, s))))"

section \<open>The corrosion engine\<close>

text \<open>
  The seed loop over \<^verbatim>\<open>rand.Perm(bounds.Dx() * bounds.Dy())\<close>, with its \<^verbatim>\<open>break\<close>.
\<close>

fun corrosion_seeds :: "image \<Rightarrow> rectangle \<Rightarrow> int list \<Rightarrow> bool list \<Rightarrow> int \<Rightarrow> panic + bool list" where
  "corrosion_seeds layer bounds [] corrosionCur numSeeds = Inr corrosionCur"
| "corrosion_seeds layer bounds (i # rest) corrosionCur numSeeds =
     (if Dx bounds = 0 then Inl DivideByZero
      else
        (let x = go_rem i (Dx bounds);
             y = go_quo i (Dx bounds);
             a = layer_alpha layer x y
         in case (if a \<noteq> 0 then
                    (case store_r corrosionCur i True of
                       Inl e \<Rightarrow> Inl e
                     | Inr cur' \<Rightarrow> Inr (cur', numSeeds - 1))
                  else Inr (corrosionCur, numSeeds)) of
              Inl e \<Rightarrow> Inl e
            | Inr (cur', numSeeds') \<Rightarrow>
                if numSeeds' = 0 then Inr cur'
                else corrosion_seeds layer bounds rest cur' numSeeds'))"

text \<open>The count of the cells of the 3x3 block that are set in the previous state.\<close>

definition corrosion_numNeighbors :: "rectangle \<Rightarrow> bool list \<Rightarrow> int \<Rightarrow> int \<Rightarrow> panic + int" where
  "corrosion_numNeighbors bounds corrosionPrev x y =
     fold_r (\<lambda>(u, v) n.
               case index_r corrosionPrev (v * Dx bounds + u) of
                 Inl e \<Rightarrow> Inl e
               | Inr b \<Rightarrow> Inr (if b then n + 1 else n))
       (neighbors3x3 bounds x y) 0"

text \<open>The body of the cell loop of one iteration at \<open>(x, y)\<close>.\<close>

definition corrosion_cell ::
  "'s rand_source \<Rightarrow> image \<Rightarrow> bool list \<Rightarrow> int \<Rightarrow> int \<Rightarrow> bool list \<times> 's
     \<Rightarrow> panic + bool list \<times> 's" where
  "corrosion_cell rnd layer corrosionPrev y x st =
     (let (corrosionCur, s) = st;
          bounds = Bounds layer;
          a = layer_alpha layer x y
      in if a = 0 then Inr st
         else
           (let index = y * Dx bounds + x
            in case index_r corrosionPrev index of
                 Inl e \<Rightarrow> Inl e
               | Inr p \<Rightarrow>
                   if p then
                     (case store_r corrosionCur index True of
                        Inl e \<Rightarrow> Inl e
                      | Inr cur' \<Rightarrow> Inr (cur', s))
                   else
                     (case corrosion_numNeighbors bounds corrosionPrev x y of
                        Inl e \<Rightarrow> Inl e
                      | Inr numNeighbors \<Rightarrow>
                          (let (r, s') = rand_Intn rnd 8 s
                           in if r < numNeighbors then
                                (case store_r corrosionCur index True of
                                   Inl e \<Rightarrow> Inl e
                                 | Inr cur' \<Rightarrow> Inr (cur', s'))
                              else Inr (corrosionCur, s')))))"

text \<open>One iteration: the sweep over all cells, then the swap of the two states.\<close>

definition corrosion_step ::
  "'s rand_source \<Rightarrow> image \<Rightarrow> int \<Rightarrow> bool list \<times> bool list \<times> 's
     \<Rightarrow> panic + bool list \<times> bool list \<times> 's" where
  "corrosion_step rnd layer i st =
     (let (corrosionCur, corrosionPrev, s) = st
      in case fold_r (\<lambda>y. fold_r (corrosion_cell rnd layer corrosionPrev y)
                             [MinX (Bounds layer)..MaxX (Bounds layer) - 1])
                [MinY (Bounds layer)..MaxY (Bounds layer) - 1] (corrosionCur, s) of
           Inl e \<Rightarrow> Inl e
         | Inr (cur', s') \<Rightarrow> Inr (corrosionPrev, cur', s'))"

text \<open>The body of the final loop: a cell set in the previous state takes the colour.\<close>

definition corrosion_paint ::
  "rectangle \<Rightarrow> bool list \<Rightarrow> color \<Rightarrow> int \<Rightarrow> int \<Rightarrow> rgba_image \<Rightarrow> panic + rgba_image" where
  "corrosion_paint bounds corrosionPrev col y x corrosionLayer =
     (let index = y * Dx bounds + x
      in case index_r corrosionPrev index of
           Inl e \<Rightarrow> Inl e
         | Inr p \<Rightarrow>
             Inr (if p then RGBA_Set corrosionLayer x y (RGBAModel_Convert col)
                  else corrosionLayer))"

definition ApplyCorrosion ::
  "'s rand_source \<Rightarrow> image \<Rightarrow> color \<Rightarrow> int \<Rightarrow> int \<Rightarrow> 's \<Rightarrow> panic + rgba_image \<times> 's" where
  "ApplyCorrosion rnd layer col numIterations numSeeds s =
     (let bounds = Bounds layer in
      bind_r (make_r (Dx bounds * Dy bounds) False) (\<lambda>corrosionCur.
      bind_r (make_r (Dx bounds * Dy bounds) False) (\<lambda>corrosionPrev.
      (let (perm, s1) = rand_Perm rnd (Dx bounds * Dy bounds) s in
       bind_r (corrosion_seeds layer bounds perm corrosionCur numSeeds) (\<lambda>cur1.
       bind_r (fold_r (corrosion_step rnd layer) [0..numIterations - 1]
                 (cur1, corrosionPrev, s1)) (\<lambda>(cur2, prev2, s2).
       bind_r (NewRGBA bounds) (\<lambda>corrosionLayer.
       bind_r (fold_r (\<lambda>y. fold_r (corrosion_paint bounds prev2 col y)
                              [MinX bounds..MaxX bounds - 1])
                 [MinY bounds..MaxY bounds - 1] corrosionLayer) (\<lambda>img.
       Inr (img, s2)))))))))"

section \<open>Invariants of the engines and concrete inputs\<close>

text \<open>An \<^verbatim>\<open>image.RGBA\<close> as \<^verbatim>\<open>NewRGBA\<close> makes it: the slice has one entry per pixel of the rectangle.\<close>

definition rgba_wf :: "rgba_image \<Rightarrow> bool" where
  "rgba_wf p \<longleftrightarrow> Stride p = Dx (Rect p) \<and> 0 \<le> Dx (Rect p) \<and> 0 \<le> Dy (Rect p)
     \<and> length (Pix p) = nat (Dx (Rect p) * Dy (Rect p))"

text \<open>The loop invariant of the directional engine: no pixel set on the layer is set on the effect layer.\<close>

definition effect_inv :: "image \<Rightarrow> rgba_image \<Rightarrow> bool" where
  "effect_inv layer p \<longleftrightarrow>
     rgba_wf p \<and> Rect p = Bounds layer \<and>
     (\<forall>x y. layer_alpha layer x y \<noteq> 0 \<longrightarrow> rgbaA (RGBA_At p x y) = 0)"

text \<open>The invariant of both corrosion states: a cell that is set belongs to a pixel set on the layer.\<close>

definition grid_inv :: "image \<Rightarrow> bool list \<Rightarrow> bool" where
  "grid_inv layer g \<longleftrightarrow>
     (\<forall>x y. point_In x y (Bounds layer) \<and> 0 \<le> y * Dx (Bounds layer) + x
            \<and> y * Dx (Bounds layer) + x < int (length g)
            \<and> g ! nat (y * Dx (Bounds layer) + x)
        \<longrightarrow> layer_alpha layer x y \<noteq> 0)"

text \<open>The invariant of the final loop of the corrosion engine.\<close>

definition paint_inv :: "image \<Rightarrow> rgba_image \<Rightarrow> bool" where
  "paint_inv layer p \<longleftrightarrow>
     rgba_wf p \<and> Rect p = Bounds layer \<and>
     (\<forall>x y. rgbaA (RGBA_At p x y) \<noteq> 0 \<longrightarrow> layer_alpha layer x y \<noteq> 0)"

text \<open>
  A mocked random source: every \<^verbatim>\<open>Float64()\<close> is \<open>r\<close>, every \<^verbatim>\<open>Intn(n)\<close> is \<open>k\<close>,
  every \<^verbatim>\<open>Perm(n)\<close> is the identity permutation; the state counts the calls.
\<close>

definition mock_rand :: "real \<Rightarrow> int \<Rightarrow> nat rand_source" where
  "mock_rand r k =
     \<lparr>rand_Float64 = (\<lambda>s. (r, Suc s)), rand_Intn = (\<lambda>n s. (k, Suc s)),
      rand_Perm = (\<lambda>n s. ([0..n - 1], Suc s))\<rparr>"

definition px :: "8 word \<Rightarrow> 8 word \<Rightarrow> 8 word \<Rightarrow> 8 word \<Rightarrow> rgba" where
  "px r g b a = \<lparr>rgbaR = r, rgbaG = g, rgbaB = b, rgbaA = a\<rparr>"

definition opaque :: "8 word \<Rightarrow> 8 word \<Rightarrow> 8 word \<Rightarrow> color" where
  "opaque r g b = rgba_RGBA (px r g b 255)"

definition rect :: "int \<Rightarrow> int \<Rightarrow> int \<Rightarrow> int \<Rightarrow> rectangle" where
  "rect x0 y0 x1 y1 = \<lparr>MinX = x0, MinY = y0, MaxX = x1, MaxY = y1\<rparr>"

text \<open>A layer with every pixel set, and a 3x3 layer with only the centre pixel set.\<close>

definition solid_layer :: "rectangle \<Rightarrow> image" where
  "solid_layer r = \<lparr>Bounds = r, Pixels = (\<lambda>x y. opaque 9 9 9)\<rparr>"

definition dot_layer :: image where
  "dot_layer =
     \<lparr>Bounds = rect 0 0 3 3,
      Pixels = (\<lambda>x y. if x = 1 \<and> y = 1 then opaque 9 9 9 else color_zero)\<rparr>"


text \<open>
  The rule of a later glow pass in the words of the specification: the 3x3 block around
  a pixel, the count of its cells (within the bounds) that are set on the overlay with a
  colour other than \<open>c\<close>, and the condition under which the pixel at \<open>(x, y)\<close>
  fills its block.
\<close>

definition block3x3 :: "int \<Rightarrow> int \<Rightarrow> (int \<times> int) set" where
  "block3x3 x y = {x - 1..x + 1} \<times> {y - 1..y + 1}"

definition spec_glow_neighbor_count :: "rgba_image \<Rightarrow> rectangle \<Rightarrow> rgba \<Rightarrow> int \<Rightarrow> int \<Rightarrow> nat" where
  "spec_glow_neighbor_count e b c x y =
     card (Set.filter (\<lambda>(u, v). point_In u v b \<and> effect_alpha e u v \<noteq> 0 \<and> RGBA_At e u v \<noteq> c)
             (block3x3 x y))"

definition spec_glow_triggers ::
  "'s rand_source \<Rightarrow> image \<Rightarrow> rgba_image \<Rightarrow> rgba \<Rightarrow> int \<Rightarrow> int \<Rightarrow> 's \<Rightarrow> bool" where
  "spec_glow_triggers rnd layer e c x y s \<longleftrightarrow>
     layer_alpha layer x y = 0 \<and>
     effect_alpha e x y \<noteq> 0 \<and> RGBA_At e x y \<noteq> c \<and>
     3 \<le> spec_glow_neighbor_count e (Bounds layer) c x y \<and>
     \<not> fst (rand_Float64 rnd s) < float64_0_1"

text \<open>
  A random source that returns constant values: no sample depends on the state of the
  generator.
\<close>

definition const_source :: "'s rand_source \<Rightarrow> bool" where
  "const_source rnd \<longleftrightarrow>
     (\<forall>s s'. fst (rand_Float64 rnd s) = fst (rand_Float64 rnd s')) \<and>
     (\<forall>n s s'. fst (rand_Intn rnd n s) = fst (rand_Intn rnd n s')) \<and>
     (\<forall>n s s'. fst (rand_Perm rnd n s) = fst (rand_Perm rnd n s'))"

text \<open>The outcome of a call without the state of the generator: the buffer, or the panic.\<close>

fun map_r :: "('a \<Rightarrow> 'b) \<Rightarrow> panic + 'a \<Rightarrow> panic + 'b" where
  "map_r f (Inl e) = Inl e"
| "map_r f (Inr a) = Inr (f a)"

definition buffer_of :: "panic + rgba_image \<times> 's \<Rightarrow> panic + rgba_image" where
  "buffer_of r = map_r fst r"

text \<open>
  More inputs: a layer with no pixel set; a layer one pixel wide with the top pixel unset
  and the two pixels below it set; one with only the bottom pixel of three set; the
  gradient of three colours from red to blue; the overlay after the first glow pass
  around the single set pixel of \<open>dot_layer\<close>.
\<close>

definition clear_layer :: "rectangle \<Rightarrow> image" where
  "clear_layer r = \<lparr>Bounds = r, Pixels = (\<lambda>x y. color_zero)\<rparr>"

definition line_layer :: image where
  "line_layer =
     \<lparr>Bounds = rect 0 0 1 3,
      Pixels = (\<lambda>x y. if 1 \<le> y then opaque 9 9 9 else color_zero)\<rparr>"

definition foot_layer :: image where
  "foot_layer =
     \<lparr>Bounds = rect 0 0 1 3,
      Pixels = (\<lambda>x y. if 2 \<le> y then opaque 9 9 9 else color_zero)\<rparr>"

definition red_blue_3 :: "rgba list" where
  "red_blue_3 = [px 255 0 0 255, px 127 0 127 255, px 0 0 255 255]"

definition ring_overlay :: rgba_image where
  "ring_overlay =
     \<lparr>Pix = [px 255 0 0 255, px 255 0 0 255, px 255 0 0 255,
             px 255 0 0 255, px 0 0 0 0, px 255 0 0 255,
             px 255 0 0 255, px 255 0 0 255, px 255 0 0 255],
      Stride = 3, Rect = rect 0 0 3 3\<rparr>"

text \<open>
  The number of cells marked in a corrosion state, and the cells of a permutation at
  which the seed loop finds the layer set.
\<close>

definition count_marked :: "bool list \<Rightarrow> nat" where
  "count_marked g = length (filter (\<lambda>b. b) g)"

definition seed_candidates :: "image \<Rightarrow> rectangle \<Rightarrow> int list \<Rightarrow> int list" where
  "seed_candidates layer b perm =
     filter (\<lambda>i. layer_alpha layer (go_rem i (Dx b)) (go_quo i (Dx b)) \<noteq> 0) perm"

section \<open>Properties\<close>

subsection \<open>Loops\<close>

lemma fold_r_invariant:
  assumes "fold_r f xs a = Inr r" "P a"
    and "\<And>x a a'. x \<in> set xs \<Longrightarrow> P a \<Longrightarrow> f x a = Inr a' \<Longrightarrow> P a'"
  shows "P r"
  using assms
proof (induction xs arbitrary: a)
  case Nil
  then show ?case by simp
next
  case (Cons x xs)
  from Cons.prems(1) obtain a' where fx: "f x a = Inr a'" and rest: "fold_r f xs a' = Inr r"
    by (auto split: sum.splits)
  have "P a'" using Cons.prems(3)[OF _ Cons.prems(2) fx] by simp
  show ?case
    by (rule Cons.IH[OF rest \<open>P a'\<close>]) (rule Cons.prems(3), auto)
qed

lemma fold_r_total:
  assumes "P a"
    and "\<And>x a. x \<in> set xs \<Longrightarrow> P a \<Longrightarrow> \<exists>a'. f x a = Inr a' \<and> P a'"
  shows "\<exists>r. fold_r f xs a = Inr r \<and> P r"
  using assms
proof (induction xs arbitrary: a)
  case Nil
  then show ?case by simp
next
  case (Cons x xs)
  from Cons.prems(2)[of x a] Cons.prems(1) obtain a' where a': "f x a = Inr a'" "P a'" by auto
  have "\<exists>r. fold_r f xs a' = Inr r \<and> P r"
    by (rule Cons.IH[OF a'(2)]) (rule Cons.prems(2), simp_all)
  with a'(1) show ?case by simp
qed

lemma fold_invariant:
  assumes "P a" and "\<And>x a. x \<in> set xs \<Longrightarrow> P a \<Longrightarrow> P (f x a)"
  shows "P (fold f xs a)"
  using assms by (induction xs arbitrary: a) simp_all

lemma fold_fixed: "(\<And>x. x \<in> set xs \<Longrightarrow> f x a = a) \<Longrightarrow> fold f xs a = a"
  by (induction xs) auto

lemma fold_r_det:
  assumes "\<And>x a b. x \<in> set xs \<Longrightarrow> out a = out b \<Longrightarrow> map_r out (f x a) = map_r out (f x b)"
    and "out a = out b"
  shows "map_r out (fold_r f xs a) = map_r out (fold_r f xs b)"
  using assms
proof (induction xs arbitrary: a b)
  case Nil
  then show ?case by simp
next
  case (Cons x xs)
  have fx: "map_r out (f x a) = map_r out (f x b)"
    by (rule Cons.prems(1)) (simp_all add: Cons.prems(2))
  have step: "\<And>z a b. z \<in> set xs \<Longrightarrow> out a = out b \<Longrightarrow>
      map_r out (f z a) = map_r out (f z b)"
    by (rule Cons.prems(1)) simp_all
  show ?case
  proof (cases "f x a")
    case (Inl e)
    with fx have "f x b = Inl e" by (cases "f x b") simp_all
    with Inl show ?thesis by simp
  next
    case (Inr a')
    with fx obtain b' where b': "f x b = Inr b'" "out a' = out b'" by (cases "f x b") simp_all
    have "map_r out (fold_r f xs a') = map_r out (fold_r f xs b')"
      using step b'(2) by (rule Cons.IH)
    with Inr b'(1) show ?thesis by simp
  qed
qed

lemma fold_det:
  assumes "\<And>x a b. x \<in> set xs \<Longrightarrow> out a = out b \<Longrightarrow> out (f x a) = out (f x b)"
    and "out a = out b"
  shows "out (fold f xs a) = out (fold f xs b)"
  using assms
proof (induction xs arbitrary: a b)
  case Nil
  then show ?case by simp
next
  case (Cons x xs)
  have fx: "out (f x a) = out (f x b)"
    by (rule Cons.prems(1)) (simp_all add: Cons.prems(2))
  have step: "\<And>z a b. z \<in> set xs \<Longrightarrow> out a = out b \<Longrightarrow> out (f z a) = out (f z b)"
    by (rule Cons.prems(1)) simp_all
  have "out (fold f xs (f x a)) = out (fold f xs (f x b))"
    using step fx by (rule Cons.IH)
  then show ?case by simp
qed

subsection \<open>Pixels of an \<^verbatim>\<open>image.RGBA\<close>\<close>

lemma NewRGBA_wf: "NewRGBA r = Inr p \<Longrightarrow> rgba_wf p \<and> Rect p = r"
  by (auto simp: NewRGBA_def rgba_wf_def split: if_splits)

lemma Rect_RGBA_Set [simp]: "Rect (RGBA_Set p x y c) = Rect p"
  by (simp add: RGBA_Set_def)

lemma Stride_RGBA_Set [simp]: "Stride (RGBA_Set p x y c) = Stride p"
  by (simp add: RGBA_Set_def)

lemma RGBA_Set_wf [simp]: "rgba_wf (RGBA_Set p x y c) = rgba_wf p"
  by (simp add: RGBA_Set_def rgba_wf_def)

lemma cell_offset_bounds:
  fixes w h dx dy :: int
  assumes "0 \<le> dx" "dx < w" "0 \<le> dy" "dy < h"
  shows "0 \<le> dy * w + dx" and "dy * w + dx < w * h"
proof -
  from assms show "0 \<le> dy * w + dx" by simp
  have "dy * w \<le> (h - 1) * w" using assms by (intro mult_right_mono) auto
  then show "dy * w + dx < w * h" using assms by (simp add: algebra_simps)
qed

lemma cell_offset_inj:
  fixes w dx dy dx' dy' :: int
  assumes "0 \<le> dx" "dx < w" "0 \<le> dx'" "dx' < w" "dy * w + dx = dy' * w + dx'"
  shows "dx = dx' \<and> dy = dy'"
proof -
  have "(dy * w + dx) mod w = dx" "(dy' * w + dx') mod w = dx'" using assms(1-4) by simp_all
  then have 1: "dx = dx'" using assms(5) by metis
  have "(dy * w + dx) div w = dy" "(dy' * w + dx') div w = dy'" using assms(1-4) by simp_all
  then have "dy = dy'" using assms(5) by metis
  with 1 show ?thesis by simp
qed

lemma PixOffset_range:
  assumes "rgba_wf p" "point_In x y (Rect p)"
  shows "0 \<le> PixOffset p x y" "nat (PixOffset p x y) < length (Pix p)"
proof -
  let ?r = "Rect p"
  have a: "0 \<le> x - MinX ?r" "x - MinX ?r < Dx ?r" "0 \<le> y - MinY ?r" "y - MinY ?r < Dy ?r"
    using assms by (auto simp: point_In_def Dx_def Dy_def)
  from cell_offset_bounds[OF a] assms(1)
  show "0 \<le> PixOffset p x y" "nat (PixOffset p x y) < length (Pix p)"
    by (auto simp: PixOffset_def rgba_wf_def)
qed

lemma PixOffset_inj:
  assumes "rgba_wf p" "point_In x y (Rect p)" "point_In x' y' (Rect p)"
    "PixOffset p x y = PixOffset p x' y'"
  shows "x = x' \<and> y = y'"
proof -
  let ?r = "Rect p"
  have "x - MinX ?r = x' - MinX ?r \<and> y - MinY ?r = y' - MinY ?r"
    using assms by (intro cell_offset_inj[where w = "Dx ?r"]) (auto simp: point_In_def Dx_def PixOffset_def rgba_wf_def)
  then show ?thesis by simp
qed

lemma RGBA_At_Set:
  assumes "rgba_wf p"
  shows "RGBA_At (RGBA_Set p x y c) x' y' =
           (if x' = x \<and> y' = y \<and> point_In x y (Rect p) then c else RGBA_At p x' y')"
proof (cases "point_In x y (Rect p)")
  case False
  then show ?thesis by (simp add: RGBA_Set_def)
next
  case inxy: True
  show ?thesis
  proof (cases "point_In x' y' (Rect p)")
    case False
    then show ?thesis using inxy by (auto simp: RGBA_At_def RGBA_Set_def)
  next
    case True
    note r = PixOffset_range[OF assms inxy] PixOffset_range[OF assms True]
    have "nat (PixOffset p x y) = nat (PixOffset p x' y') \<longleftrightarrow> x = x' \<and> y = y'"
      using PixOffset_inj[OF assms inxy True] r by auto
    then show ?thesis using inxy True r
      by (auto simp: RGBA_At_def RGBA_Set_def PixOffset_def)
  qed
qed

lemma RGBA_At_NewRGBA: "NewRGBA r = Inr p \<Longrightarrow> RGBA_At p x y = rgba_zero"
proof -
  assume a: "NewRGBA r = Inr p"
  then have wf: "rgba_wf p" and pix: "Pix p = replicate (nat (Dx r * Dy r)) rgba_zero" and "Rect p = r"
    by (auto simp: NewRGBA_wf NewRGBA_def split: if_splits)
  show ?thesis
  proof (cases "point_In x y (Rect p)")
    case True
    from PixOffset_range[OF wf True] show ?thesis using pix True by (simp add: RGBA_At_def)
  qed (simp add: RGBA_At_def)
qed

lemma ucast_8_32_eq_0: "(ucast (v :: 8 word) :: 32 word) = 0 \<longleftrightarrow> v = 0"
proof
  assume "(ucast v :: 32 word) = 0"
  then have "uint (ucast v :: 32 word) = 0" by simp
  then have "uint v = 0" by (simp add: uint_up_ucast is_up)
  then show "v = 0" by (simp add: unsigned_eq_0_iff)
qed simp

lemma widen8_eq_0 [simp]: "widen8 v = 0 \<longleftrightarrow> v = 0"
  by (auto simp: widen8_def or_eq_0_iff ucast_8_32_eq_0)

lemma effect_alpha_eq_0: "effect_alpha p x y = 0 \<longleftrightarrow> rgbaA (RGBA_At p x y) = 0"
  by (simp add: effect_alpha_def rgba_RGBA_def)

lemma effect_alpha_NewRGBA: "NewRGBA r = Inr p \<Longrightarrow> effect_alpha p x y = 0"
  by (simp add: effect_alpha_eq_0 RGBA_At_NewRGBA rgba_zero_def)

lemma layer_alpha_In: "layer_alpha layer x y \<noteq> 0 \<Longrightarrow> point_In x y (Bounds layer)"
  by (auto simp: layer_alpha_def image_At_def color_zero_def split: if_splits)

lemma narrow8_widen8: "narrow8 (widen8 v) = v"
  unfolding narrow8_def widen8_def
  by (rule bit_word_eqI) (auto simp: bit_simps dest: bit_imp_le_length)

lemma RGBAModel_Convert_rgba_RGBA: "RGBAModel_Convert (rgba_RGBA c) = c"
  by (simp add: RGBAModel_Convert_def rgba_RGBA_def narrow8_widen8)

subsection \<open>The cells of a 3x3 block\<close>

lemma in_concat_map_if:
  "p \<in> set (concat (map (\<lambda>i. if c i then [] else L i) xs)) \<longleftrightarrow>
     (\<exists>i \<in> set xs. \<not> c i \<and> p \<in> set (L i))"
  by (induction xs) auto

lemma distinct_concat_map_if:
  assumes "distinct xs" "\<And>i. i \<in> set xs \<Longrightarrow> distinct (L i)"
    "\<And>i j. i \<in> set xs \<Longrightarrow> j \<in> set xs \<Longrightarrow> i \<noteq> j \<Longrightarrow> set (L i) \<inter> set (L j) = {}"
  shows "distinct (concat (map (\<lambda>i. if c i then [] else L i) xs))"
  using assms
proof (induction xs)
  case Nil
  then show ?case by simp
next
  case (Cons a xs)
  have "distinct (concat (map (\<lambda>i. if c i then [] else L i) xs))"
    using Cons by auto
  moreover have "set (L a) \<inter> set (concat (map (\<lambda>i. if c i then [] else L i) xs)) = {}"
  proof -
    have "set (L a) \<inter> set (L j) = {}" if "j \<in> set xs" for j
      using Cons.prems(1) that by (intro Cons.prems(3)) auto
    then show ?thesis by (auto simp: in_concat_map_if)
  qed
  ultimately show ?case using Cons.prems(2) by auto
qed

lemma in_neighbors_column:
  "(u, v) \<in> set (concat (map (\<lambda>j. if y + j < lo \<or> y + j \<ge> hi then [] else [(a, y + j)])
                             [- 1, 0, 1 :: int])) \<longleftrightarrow>
     u = a \<and> v \<in> {y - 1..y + 1} \<and> lo \<le> v \<and> v < hi"
  unfolding in_concat_map_if by auto

lemma ex_offset_iff:
  "(\<exists>i \<in> set [- 1, 0, 1 :: int]. P i \<and> u = x + i \<and> R) \<longleftrightarrow>
     u \<in> {x - 1..x + 1} \<and> P (u - x) \<and> R"
proof
  assume "\<exists>i \<in> set [- 1, 0, 1 :: int]. P i \<and> u = x + i \<and> R"
  then obtain i where i: "i \<in> set [- 1, 0, 1 :: int]" "P i" "u = x + i" "R" by blast
  from i(3) have ux: "u - x = i" by simp
  from i(1) have "x + i \<in> {x - 1..x + 1}" by auto
  with i(2,4) show "u \<in> {x - 1..x + 1} \<and> P (u - x) \<and> R" unfolding ux unfolding i(3) by simp
next
  assume r: "u \<in> {x - 1..x + 1} \<and> P (u - x) \<and> R"
  then have "u - x = - 1 \<or> u - x = 0 \<or> u - x = 1" by auto
  then have "u - x \<in> set [- 1, 0, 1 :: int]" by simp
  moreover have "u = x + (u - x)" by simp
  ultimately show "\<exists>i \<in> set [- 1, 0, 1 :: int]. P i \<and> u = x + i \<and> R" using r by blast
qed

lemma in_neighbors3x3:
  "(u, v) \<in> set (neighbors3x3 b x y) \<longleftrightarrow> (u, v) \<in> block3x3 x y \<and> point_In u v b"
proof -
  have "(u, v) \<in> set (neighbors3x3 b x y) \<longleftrightarrow>
      (\<exists>i \<in> set [- 1, 0, 1 :: int]. \<not> (x + i < MinX b \<or> x + i \<ge> MaxX b) \<and> u = x + i \<and>
          (v \<in> {y - 1..y + 1} \<and> MinY b \<le> v \<and> v < MaxY b))"
    unfolding neighbors3x3_def
    by (subst in_concat_map_if) (simp only: in_neighbors_column)
  also have "\<dots> \<longleftrightarrow> u \<in> {x - 1..x + 1} \<and> \<not> (x + (u - x) < MinX b \<or> x + (u - x) \<ge> MaxX b) \<and>
          (v \<in> {y - 1..y + 1} \<and> MinY b \<le> v \<and> v < MaxY b)"
    by (rule ex_offset_iff)
  also have "\<dots> \<longleftrightarrow> (u, v) \<in> block3x3 x y \<and> point_In u v b"
    by (auto simp: block3x3_def point_In_def)
  finally show ?thesis .
qed

lemma set_neighbors3x3:
  "set (neighbors3x3 b x y) = {(u, v). (u, v) \<in> block3x3 x y \<and> point_In u v b}"
  using in_neighbors3x3 by auto

lemma distinct_neighbors3x3: "distinct (neighbors3x3 b x y)"
  unfolding neighbors3x3_def
proof (rule distinct_concat_map_if)
  show "distinct [- 1, 0, 1 :: int]" by simp
next
  fix i :: int
  show "distinct (concat (map (\<lambda>j. if y + j < MinY b \<or> y + j \<ge> MaxY b then [] else [(x + i, y + j)]) [- 1, 0, 1]))"
    by (rule distinct_concat_map_if) auto
next
  fix i j :: int
  assume "i \<noteq> j"
  then show "set (concat (map (\<lambda>ja. if y + ja < MinY b \<or> y + ja \<ge> MaxY b then [] else [(x + i, y + ja)]) [- 1, 0, 1]))
      \<inter> set (concat (map (\<lambda>ja. if y + ja < MinY b \<or> y + ja \<ge> MaxY b then [] else [(x + j, y + ja)]) [- 1, 0, 1])) = {}"
    unfolding in_concat_map_if disjoint_iff by auto
qed

lemma count_cells_filter: "count_cells P cells = int (length (filter P cells))"
proof -
  have "fold (\<lambda>p n. if P p then n + 1 else n) cells k = k + int (length (filter P cells))" for k
    by (induction cells arbitrary: k) auto
  then show ?thesis by (simp add: count_cells_def)
qed

subsection \<open>C1: the overlay and the occupied pixels\<close>

lemma effect_inv_Set:
  "effect_inv layer p \<Longrightarrow> layer_alpha layer x y = 0 \<Longrightarrow> effect_inv layer (RGBA_Set p x y c)"
  by (auto simp: effect_inv_def RGBA_At_Set)

lemma effect_pixel_inv:
  assumes "effect_pixel rnd layer gradient numColors direction y x st = Inr st'"
    and "effect_inv layer (fst st)"
  shows "effect_inv layer (fst st')"
  using assms
  by (auto simp: effect_pixel_def Let_def effect_inv_Set split: prod.splits if_splits sum.splits)

lemma effect_row_inv:
  assumes "effect_row rnd layer gradient numColors direction y st = Inr st'"
    and "effect_inv layer (fst st)"
  shows "effect_inv layer (fst st')"
  using assms(1) unfolding effect_row_def
  by (rule fold_r_invariant[where P = "\<lambda>st. effect_inv layer (fst st)"])
     (auto intro: assms(2) effect_pixel_inv)

lemma effect_rows_inv:
  assumes "effect_rows rnd layer gradient numColors direction y st = Some (Inr st')"
    and "effect_inv layer (fst st)"
  shows "effect_inv layer (fst st')"
proof -
  have "effect_inv layer (fst st) \<longrightarrow> (\<forall>t. (Inr st' :: panic + _) = Inr t \<longrightarrow> effect_inv layer (fst t))"
    by (rule effect_rows.raw_induct
          [where P = "\<lambda>rnd layer gradient numColors direction y st r.
                        effect_inv layer (fst st) \<longrightarrow> (\<forall>t. r = Inr t \<longrightarrow> effect_inv layer (fst t))",
           OF _ assms(1)])
       (auto split: if_splits sum.splits dest: effect_row_inv)
  with assms show ?thesis by blast
qed

lemma NewRGBA_effect_inv: "NewRGBA (Bounds layer) = Inr p \<Longrightarrow> effect_inv layer p"
  by (simp add: effect_inv_def NewRGBA_wf RGBA_At_NewRGBA rgba_zero_def)

text \<open>
  C1 states that the overlay of each engine (directional, glow, corrosion) is never set
  at a pixel that is set on the layer. The corrosion engine does the opposite by design:
  on a layer of one set pixel, with one seed and one iteration, it paints that pixel.
\<close>

theorem corrosion_covers_occupied_pixel:
  "layer_alpha (solid_layer (rect 0 0 1 1)) 0 0 \<noteq> 0 \<and>
   ApplyCorrosion (mock_rand 1 0) (solid_layer (rect 0 0 1 1)) (opaque 255 0 0) 1 1 0 =
     Inr (\<lparr>Pix = [px 255 0 0 255], Stride = 1, Rect = rect 0 0 1 1\<rparr>, 2) \<and>
   effect_alpha \<lparr>Pix = [px 255 0 0 255], Stride = 1, Rect = rect 0 0 1 1\<rparr> 0 0 \<noteq> 0"
  by code_simp

text \<open>
  The later passes of the glow engine fill every unset cell of a 3x3 block without
  looking at the layer: around a single set pixel, the second pass sets the overlay at
  that pixel as well.
\<close>

lemma glow_covers_occupied_pixel:
  "layer_alpha dot_layer 1 1 \<noteq> 0 \<and>
   ApplyGlowEffect exact_ops (mock_rand 1 0) dot_layer (opaque 255 0 0) (opaque 0 0 255) 0 =
     Inr (\<lparr>Pix = [px 255 0 0 255, px 255 0 0 255, px 255 0 0 255,
                  px 255 0 0 255, px 127 0 127 255, px 255 0 0 255,
                  px 255 0 0 255, px 255 0 0 255, px 255 0 0 255],
           Stride = 3, Rect = rect 0 0 3 3\<rparr>, 16)"
  by code_simp

text \<open>
  C1, amended to the directional engine: whenever \<^verbatim>\<open>applyEffect\<close> returns, for any
  number of colours, any direction and any random source, the overlay's alpha is 0 at
  every pixel that is set on the layer.
\<close>

theorem applyEffect_never_covers:
  assumes "applyEffect F rnd layer colorA colorB numColors direction s = Some (Inr (effectLayer, s'))"
    and "layer_alpha layer x y \<noteq> 0"
  shows "effect_alpha effectLayer x y = 0"
proof -
  from assms(1) obtain p gradient where
    p: "NewRGBA (Bounds layer) = Inr p" and
    rows: "effect_rows rnd layer gradient numColors direction
             (if direction = -1 then MinY (Bounds layer) else MaxY (Bounds layer) - 1) (p, s)
           = Some (Inr (effectLayer, s'))"
    by (auto simp: applyEffect_def Let_def split: sum.splits)
  have "effect_inv layer effectLayer"
    using effect_rows_inv[OF rows] NewRGBA_effect_inv[OF p] by simp
  with assms(2) show ?thesis by (simp add: effect_inv_def effect_alpha_eq_0)
qed

text \<open>C1, amended: the theorem at the 3x3 layer with only the centre pixel set.\<close>

theorem applyEffect_never_covers_witness:
  "applyEffect exact_ops (mock_rand 1 0) dot_layer (opaque 255 0 0) (opaque 0 0 255) 3
     DirectionUp 0 =
     Some (Inr (\<lparr>Pix = [px 0 0 0 0, px 255 0 0 255, px 0 0 0 0,
                        px 0 0 0 0, px 0 0 0 0, px 0 0 0 0,
                        px 0 0 0 0, px 0 0 0 0, px 0 0 0 0],
                 Stride = 3, Rect = rect 0 0 3 3\<rparr>, 0)) \<and>
   layer_alpha dot_layer 1 1 \<noteq> 0 \<and>
   effect_alpha \<lparr>Pix = [px 0 0 0 0, px 255 0 0 255, px 0 0 0 0,
                       px 0 0 0 0, px 0 0 0 0, px 0 0 0 0,
                       px 0 0 0 0, px 0 0 0 0, px 0 0 0 0],
                Stride = 3, Rect = rect 0 0 3 3\<rparr> 1 1 = 0"
proof -
  have run: "applyEffect exact_ops (mock_rand 1 0) dot_layer (opaque 255 0 0) (opaque 0 0 255) 3
     DirectionUp 0 =
     Some (Inr (\<lparr>Pix = [px 0 0 0 0, px 255 0 0 255, px 0 0 0 0,
                        px 0 0 0 0, px 0 0 0 0, px 0 0 0 0,
                        px 0 0 0 0, px 0 0 0 0, px 0 0 0 0],
                 Stride = 3, Rect = rect 0 0 3 3\<rparr>, 0))"
    by code_simp
  have occ: "layer_alpha dot_layer 1 1 \<noteq> 0"
    by code_simp
  from applyEffect_never_covers [OF run occ] run occ show ?thesis
    by blast
qed

subsection \<open>C2: corrosion is confined to the silhouette\<close>

lemma cell_index_inj:
  assumes "point_In x y b" "point_In x' y' b" "y * Dx b + x = y' * Dx b + x'"
  shows "x = x' \<and> y = y'"
proof -
  have "x - MinX b = x' - MinX b \<and> y = y'"
    using assms by (intro cell_offset_inj[where w = "Dx b"]) (auto simp: point_In_def Dx_def)
  then show ?thesis by simp
qed

lemma grid_inv_replicate: "grid_inv layer (replicate n False)"
  by (auto simp: grid_inv_def)

lemma grid_inv_store:
  assumes "grid_inv layer g" "store_r g (v * Dx (Bounds layer) + u) True = Inr g'"
    "layer_alpha layer u v \<noteq> 0"
  shows "grid_inv layer g'"
  unfolding grid_inv_def
proof (intro allI impI, elim conjE)
  fix x y
  let ?W = "Dx (Bounds layer)"
  assume h: "point_In x y (Bounds layer)" "0 \<le> y * ?W + x" "y * ?W + x < int (length g')"
    "g' ! nat (y * ?W + x)"
  from assms(2) have g': "g' = g[nat (v * ?W + u) := True]" and r: "0 \<le> v * ?W + u"
    by (auto simp: store_r_def split: if_splits)
  show "layer_alpha layer x y \<noteq> 0"
  proof (cases "y * ?W + x = v * ?W + u")
    case True
    with cell_index_inj[OF h(1) layer_alpha_In[OF assms(3)] True] assms(3) show ?thesis by simp
  next
    case False
    then have "nat (y * ?W + x) \<noteq> nat (v * ?W + u)" using h(2) r by simp
    then show ?thesis using h assms(1) by (auto simp: g' grid_inv_def)
  qed
qed

lemma length_store_r: "store_r g i v = Inr g' \<Longrightarrow> length g' = length g"
  by (auto simp: store_r_def split: if_splits)

lemma go_quo_rem_nonneg:
  assumes "0 \<le> i" "0 < w"
  shows "go_quo i w * w + go_rem i w = i"
  using assms by (cases "i = 0") (auto simp: go_quo_def go_rem_def)

lemma corrosion_seeds_inv:
  assumes "corrosion_seeds layer (Bounds layer) perm g n = Inr g'" "grid_inv layer g"
  shows "grid_inv layer g'"
  using assms
proof (induction perm arbitrary: g n)
  case Nil
  then show ?case by simp
next
  case (Cons i rest)
  let ?W = "Dx (Bounds layer)"
  let ?x = "go_rem i ?W" and ?y = "go_quo i ?W"
  from Cons.prems(1) have W: "?W \<noteq> 0" by (auto split: if_splits)
  show ?case
  proof (cases "layer_alpha layer ?x ?y \<noteq> 0")
    case False
    with Cons.prems W show ?thesis
      by (auto simp: Let_def split: if_splits dest: Cons.IH)
  next
    case True
    with Cons.prems(1) W obtain g1 where st: "store_r g i True = Inr g1"
      and rest: "g' = g1 \<or> corrosion_seeds layer (Bounds layer) rest g1 (n - 1) = Inr g'"
      by (auto simp: Let_def split: if_splits sum.splits)
    from st have i: "0 \<le> i" by (auto simp: store_r_def split: if_splits)
    from layer_alpha_In[OF True] have "0 < ?W" by (auto simp: point_In_def Dx_def)
    with i have "?y * ?W + ?x = i" by (rule go_quo_rem_nonneg)
    with st have "store_r g (?y * ?W + ?x) True = Inr g1" by simp
    from grid_inv_store[OF Cons.prems(2) this True] have "grid_inv layer g1" .
    with rest show ?thesis using Cons.IH by auto
  qed
qed

lemma corrosion_cell_inv:
  assumes "corrosion_cell rnd layer prev y x st = Inr st'" "grid_inv layer (fst st)"
  shows "grid_inv layer (fst st')"
  using assms
  by (auto simp: corrosion_cell_def Let_def split: prod.splits if_splits sum.splits
           dest: grid_inv_store)

lemma corrosion_step_inv:
  assumes "corrosion_step rnd layer i st = Inr st'"
    "grid_inv layer (fst st) \<and> grid_inv layer (fst (snd st))"
  shows "grid_inv layer (fst st') \<and> grid_inv layer (fst (snd st'))"
proof -
  obtain cur prev s where st: "st = (cur, prev, s)" by (cases st) auto
  from assms(1) obtain cur' s' where
    sweep: "fold_r (\<lambda>y. fold_r (corrosion_cell rnd layer prev y)
                             [MinX (Bounds layer)..MaxX (Bounds layer) - 1])
                [MinY (Bounds layer)..MaxY (Bounds layer) - 1] (cur, s) = Inr (cur', s')"
    and st': "st' = (prev, cur', s')"
    by (auto simp: corrosion_step_def st split: sum.splits)
  have "grid_inv layer (fst (cur', s'))"
  proof (rule fold_r_invariant[OF sweep, where P = "\<lambda>t. grid_inv layer (fst t)"])
    show "grid_inv layer (fst (cur, s))" using assms(2) st by simp
  next
    fix y a a'
    assume "grid_inv layer (fst a)"
      "fold_r (corrosion_cell rnd layer prev y) [MinX (Bounds layer)..MaxX (Bounds layer) - 1] a = Inr a'"
    then show "grid_inv layer (fst a')"
      by (auto intro: fold_r_invariant[where P = "\<lambda>t. grid_inv layer (fst t)"] corrosion_cell_inv)
  qed
  then show ?thesis using assms(2) st st' by simp
qed

lemma corrosion_paint_inv:
  assumes "corrosion_paint (Bounds layer) prev col y x p = Inr p'" "paint_inv layer p"
    "grid_inv layer prev"
  shows "paint_inv layer p'"
proof -
  let ?W = "Dx (Bounds layer)"
  from assms(1) have r: "0 \<le> y * ?W + x" "y * ?W + x < int (length prev)"
    and p': "p' = (if prev ! nat (y * ?W + x) then RGBA_Set p x y (RGBAModel_Convert col) else p)"
    by (auto simp: corrosion_paint_def index_r_def Let_def split: if_splits)
  show ?thesis
  proof (cases "prev ! nat (y * ?W + x) \<and> point_In x y (Bounds layer)")
    case True
    with assms(3) r have "layer_alpha layer x y \<noteq> 0" by (auto simp: grid_inv_def)
    with assms(2) True show ?thesis by (auto simp: p' paint_inv_def RGBA_At_Set)
  next
    case False
    with assms(2) show ?thesis by (auto simp: p' paint_inv_def RGBA_Set_def)
  qed
qed

lemma NewRGBA_paint_inv: "NewRGBA (Bounds layer) = Inr p \<Longrightarrow> paint_inv layer p"
  by (simp add: paint_inv_def NewRGBA_wf RGBA_At_NewRGBA rgba_zero_def)

lemma ApplyCorrosion_paint_inv:
  assumes "ApplyCorrosion rnd layer col numIterations numSeeds s = Inr (img, s')"
  shows "paint_inv layer img"
proof -
  let ?b = "Bounds layer"
  let ?n = "Dx ?b * Dy ?b"
  obtain perm s1 where perm: "rand_Perm rnd ?n s = (perm, s1)" by (cases "rand_Perm rnd ?n s")
  from assms perm obtain cur1 cur2 prev2 s2 p where
    seeds: "corrosion_seeds layer ?b perm (replicate (nat ?n) False) numSeeds = Inr cur1" and
    iter: "fold_r (corrosion_step rnd layer) [0..numIterations - 1]
             (cur1, replicate (nat ?n) False, s1) = Inr (cur2, prev2, s2)" and
    new: "NewRGBA ?b = Inr p" and
    paint: "fold_r (\<lambda>y. fold_r (corrosion_paint ?b prev2 col y) [MinX ?b..MaxX ?b - 1])
              [MinY ?b..MaxY ?b - 1] p = Inr img"
    by (auto simp: ApplyCorrosion_def Let_def bind_r_def make_r_def split: sum.splits if_splits prod.splits)
  have g1: "grid_inv layer cur1"
    using corrosion_seeds_inv[OF seeds] by (simp add: grid_inv_replicate)
  have "grid_inv layer (fst (cur2, prev2, s2)) \<and> grid_inv layer (fst (snd (cur2, prev2, s2)))"
    by (rule fold_r_invariant[OF iter,
          where P = "\<lambda>t. grid_inv layer (fst t) \<and> grid_inv layer (fst (snd t))"])
       (auto simp: g1 grid_inv_replicate dest: corrosion_step_inv)
  then have g2: "grid_inv layer prev2" by simp
  show "paint_inv layer img"
  proof (rule fold_r_invariant[OF paint, where P = "paint_inv layer"])
    show "paint_inv layer p" by (rule NewRGBA_paint_inv[OF new])
  next
    fix y a a'
    assume "paint_inv layer a"
      "fold_r (corrosion_paint ?b prev2 col y) [MinX ?b..MaxX ?b - 1] a = Inr a'"
    then show "paint_inv layer a'"
      by (auto intro: fold_r_invariant[where P = "paint_inv layer"] corrosion_paint_inv[OF _ _ g2])
  qed
qed



subsection \<open>C3: the gradient\<close>

text \<open>
  C3 is about the values of the gradient entries: the interpolation at the fraction
  \<open>i/(N-1)\<close>, the end points and the monotonicity. They are results of \<^verbatim>\<open>float64\<close>
  arithmetic, which this development keeps as a parameter; what does not depend on it is
  the number of entries.
\<close>

lemma length_build_gradient:
  "build_gradient F colorA colorB numColors = Inr gradient \<Longrightarrow> int (length gradient) = numColors"
  by (auto simp: build_gradient_def split: if_splits)

subsection \<open>C4: the seed loop\<close>

text \<open>
  With a budget of at least 1, distinct cell indices within the slice and none of them
  marked yet, the seed loop returns and marks the minimum of the budget and the number
  of cells at which it finds the layer set.
\<close>

lemma count_marked_update:
  "i < length g \<Longrightarrow> \<not> g ! i \<Longrightarrow> count_marked (g[i := True]) = Suc (count_marked g)"
proof (induction g arbitrary: i)
  case Nil
  then show ?case by simp
next
  case (Cons a g)
  then show ?case by (cases i) (auto simp: count_marked_def)
qed

lemma count_marked_replicate: "count_marked (replicate n False) = 0"
  by (simp add: count_marked_def)

lemma corrosion_seeds_count:
  assumes "distinct perm"
    and "\<forall>i \<in> set perm. 0 \<le> i \<and> i < int (length cur) \<and> \<not> cur ! nat i"
    and "Dx b \<noteq> 0" "1 \<le> numSeeds"
  shows "\<exists>cur'. corrosion_seeds layer b perm cur numSeeds = Inr cur' \<and>
           count_marked cur' =
             count_marked cur + min (nat numSeeds) (length (seed_candidates layer b perm))"
  using assms(1,2,4)
proof (induction perm arbitrary: cur numSeeds)
  case Nil
  then show ?case by (simp add: seed_candidates_def)
next
  case (Cons i rest)
  from Cons.prems(2) have i: "0 \<le> i" "i < int (length cur)" "\<not> cur ! nat i" by auto
  let ?occ = "layer_alpha layer (go_rem i (Dx b)) (go_quo i (Dx b)) \<noteq> 0"
  show ?case
  proof (cases ?occ)
    case False
    from Cons.prems have "\<exists>cur'. corrosion_seeds layer b rest cur numSeeds = Inr cur' \<and>
           count_marked cur' =
             count_marked cur + min (nat numSeeds) (length (seed_candidates layer b rest))"
      by (intro Cons.IH) auto
    with False assms(3) Cons.prems(3) show ?thesis
      by (auto simp: Let_def seed_candidates_def)
  next
    case True
    let ?cur1 = "cur[nat i := True]"
    have st: "store_r cur i True = Inr ?cur1" using i by (simp add: store_r_def)
    have c1: "count_marked ?cur1 = Suc (count_marked cur)"
      using i by (intro count_marked_update) auto
    have cand: "length (seed_candidates layer b (i # rest)) =
        Suc (length (seed_candidates layer b rest))"
      using True by (simp add: seed_candidates_def)
    show ?thesis
    proof (cases "numSeeds = 1")
      case one: True
      with True st assms(3) c1 cand show ?thesis by (simp add: Let_def)
    next
      case False
      with Cons.prems(3) have more: "1 \<le> numSeeds - 1" by simp
      have fresh: "\<forall>j \<in> set rest. 0 \<le> j \<and> j < int (length ?cur1) \<and> \<not> ?cur1 ! nat j"
      proof
        fix j
        assume j: "j \<in> set rest"
        with Cons.prems(1) have "j \<noteq> i" by auto
        moreover from j Cons.prems(2) have "0 \<le> j" "j < int (length cur)" "\<not> cur ! nat j" by auto
        ultimately show "0 \<le> j \<and> j < int (length ?cur1) \<and> \<not> ?cur1 ! nat j"
          using i by (simp add: nth_list_update)
      qed
      from Cons.prems(1) have "distinct rest" by simp
      from Cons.IH[OF this fresh more] obtain cur' where
        r: "corrosion_seeds layer b rest ?cur1 (numSeeds - 1) = Inr cur'" and
        c: "count_marked cur' =
             count_marked ?cur1 + min (nat (numSeeds - 1)) (length (seed_candidates layer b rest))"
        by blast
      have "corrosion_seeds layer b (i # rest) cur numSeeds = Inr cur'"
        using True st assms(3) False r by (simp add: Let_def)
      moreover have "count_marked cur' =
          count_marked cur + min (nat numSeeds) (length (seed_candidates layer b (i # rest)))"
        using c c1 cand more by simp
      ultimately show ?thesis by blast
    qed
  qed
qed

lemma corrosion_seeds_count_fresh:
  assumes "distinct perm" "\<forall>i \<in> set perm. 0 \<le> i \<and> i < int n" "Dx b \<noteq> 0" "1 \<le> numSeeds"
  shows "\<exists>cur'. corrosion_seeds layer b perm (replicate n False) numSeeds = Inr cur' \<and>
           count_marked cur' = min (nat numSeeds) (length (seed_candidates layer b perm))"
proof -
  have "\<forall>i \<in> set perm. 0 \<le> i \<and> i < int (length (replicate n False)) \<and>
          \<not> replicate n False ! nat i"
    using assms(2) by auto
  from corrosion_seeds_count[OF assms(1) this assms(3,4), of layer] show ?thesis
    by (simp add: count_marked_replicate)
qed

text \<open>
  C4 states that for every seed count \<open>s \<ge> 0\<close> the seed loop stops as soon as the
  budget reaches zero and marks the minimum of \<open>s\<close> and the number of occupied cells.
  The loop tests \<^verbatim>\<open>numSeeds == 0\<close> only after the decrement: with a budget of 0 on a
  layer of two set pixels the budget goes to -1 and -2, the loop never stops early, and
  both cells are marked, where the claim gives the minimum of 0 and 2, no seed.
\<close>

theorem corrosion_seeds_zero_budget:
  "corrosion_seeds (solid_layer (rect 0 0 2 1)) (rect 0 0 2 1) [0, 1] (replicate 2 False) 0 =
     Inr [True, True] \<and>
   count_marked [True, True] = 2 \<and>
   length (seed_candidates (solid_layer (rect 0 0 2 1)) (rect 0 0 2 1) [0, 1]) = 2"
  by code_simp

subsection \<open>C5: the flame above a vertical line\<close>

lemma line_row_occupied:
  assumes "MaxX (Bounds layer) = MinX (Bounds layer) + 1"
    and "layer_alpha layer (MinX (Bounds layer)) y \<noteq> 0"
  shows "effect_row rnd layer gradient numColors direction y st = Inr st"
  using assms by (simp add: effect_row_def effect_pixel_def Let_def split: prod.splits)

lemma line_row_top:
  assumes "MaxX (Bounds layer) = MinX (Bounds layer) + 1"
    and "layer_alpha layer (MinX (Bounds layer)) y = 0"
    and "layer_alpha layer (MinX (Bounds layer)) (y + direction) \<noteq> 0"
    and "gradient \<noteq> []"
  shows "effect_row rnd layer gradient numColors direction y (p, s) =
           Inr (RGBA_Set p (MinX (Bounds layer)) y (gradient ! 0), s)"
  using assms by (simp add: effect_row_def effect_pixel_def Let_def index_r_def)

lemma line_rows_up:
  assumes "MaxX (Bounds layer) = MinX (Bounds layer) + 1"
    and "layer_alpha layer (MinX (Bounds layer)) (MinY (Bounds layer)) = 0"
    and "\<forall>y. MinY (Bounds layer) < y \<and> y < MaxY (Bounds layer)
           \<longrightarrow> layer_alpha layer (MinX (Bounds layer)) y \<noteq> 0"
    and "MinY (Bounds layer) + 1 < MaxY (Bounds layer)"
    and "gradient \<noteq> []"
    and "MinY (Bounds layer) \<le> y" "y < MaxY (Bounds layer)"
  shows "effect_rows rnd layer gradient numColors 1 y (p, s) =
           Some (Inr (RGBA_Set p (MinX (Bounds layer)) (MinY (Bounds layer)) (gradient ! 0), s))"
  using assms(6,7)
proof (induction "nat (y - MinY (Bounds layer))" arbitrary: y)
  case 0
  then have y: "y = MinY (Bounds layer)" by simp
  have top: "effect_row rnd layer gradient numColors 1 y (p, s) =
           Inr (RGBA_Set p (MinX (Bounds layer)) y (gradient ! 0), s)"
    using assms(1-5) unfolding y by (intro line_row_top) auto
  show ?case
    by (subst effect_rows.simps, simp add: top "0.prems")
       (subst effect_rows.simps, simp add: y)
next
  case (Suc n)
  then have y: "MinY (Bounds layer) < y" by simp
  have row: "effect_row rnd layer gradient numColors 1 y (p, s) = Inr (p, s)"
    using assms(1,3) y Suc.prems by (intro line_row_occupied) auto
  have "effect_rows rnd layer gradient numColors 1 (y - 1) (p, s) =
           Some (Inr (RGBA_Set p (MinX (Bounds layer)) (MinY (Bounds layer)) (gradient ! 0), s))"
    using Suc y by (intro Suc.hyps(1)) auto
  then show ?case
    by (subst effect_rows.simps) (simp add: row Suc.prems)
qed

text \<open>
  C5 states that a fully occupied layer of 1 by \<open>N\<close> pixels, under the directional
  engine growing upwards with samples that never thin, gets one overlay pixel of
  \<^verbatim>\<open>gradient[0]\<close> one step above its top pixel. That position lies outside the buffer,
  which has the bounds of the layer: on the fully occupied layer of 1 by 2 pixels the
  overlay stays empty, while \<^verbatim>\<open>gradient[0]\<close> is opaque red.
\<close>

theorem flame_on_full_line_is_empty:
  "build_gradient exact_ops (opaque 255 0 0) (opaque 0 0 255) 3 = Inr red_blue_3 \<and>
   applyEffect exact_ops (mock_rand 1 0) (solid_layer (rect 0 0 1 2))
     (opaque 255 0 0) (opaque 0 0 255) 3 DirectionUp 0 =
     Some (Inr (\<lparr>Pix = [px 0 0 0 0, px 0 0 0 0], Stride = 1, Rect = rect 0 0 1 2\<rparr>, 0))"
  by code_simp

text \<open>
  With two unset pixels above the line and samples of 1.0 the engine does not stop at
  \<^verbatim>\<open>gradient[0]\<close> either: the next pixel up takes \<^verbatim>\<open>gradient[1]\<close>.
\<close>

lemma flame_continues_gradient:
  "applyEffect exact_ops (mock_rand 1 0) foot_layer (opaque 255 0 0) (opaque 0 0 255) 3
     DirectionUp 0 =
     Some (Inr (\<lparr>Pix = [px 127 0 127 255, px 255 0 0 255, px 0 0 0 0],
                 Stride = 1, Rect = rect 0 0 1 3\<rparr>, 2))"
  by code_simp

text \<open>
  C5, amended: on a layer one pixel wide whose top pixel is unset and whose other pixels
  (at least one) are all set, the directional engine growing upwards, with at least one
  colour and any random source, returns the fresh buffer with exactly one pixel written:
  the top pixel, one step above the line, set to \<^verbatim>\<open>gradient[0]\<close>. No sample is drawn.
\<close>

theorem flame_line_one_pixel_above:
  assumes "MaxX (Bounds layer) = MinX (Bounds layer) + 1"
    and "MinY (Bounds layer) + 1 < MaxY (Bounds layer)"
    and "layer_alpha layer (MinX (Bounds layer)) (MinY (Bounds layer)) = 0"
    and "\<forall>y. MinY (Bounds layer) < y \<and> y < MaxY (Bounds layer)
           \<longrightarrow> layer_alpha layer (MinX (Bounds layer)) y \<noteq> 0"
    and "1 \<le> numColors"
  shows "\<exists>p gradient.
           NewRGBA (Bounds layer) = Inr p \<and>
           build_gradient F colorA colorB numColors = Inr gradient \<and>
           applyEffect F rnd layer colorA colorB numColors DirectionUp s =
             Some (Inr (RGBA_Set p (MinX (Bounds layer)) (MinY (Bounds layer)) (gradient ! 0), s))"
proof -
  from assms(1,2) obtain p where p: "NewRGBA (Bounds layer) = Inr p"
    by (auto simp: NewRGBA_def Dx_def Dy_def)
  from assms(5) obtain gradient where g: "build_gradient F colorA colorB numColors = Inr gradient"
    by (auto simp: build_gradient_def)
  from length_build_gradient[OF g] assms(5) have ne: "gradient \<noteq> []" by auto
  have "effect_rows rnd layer gradient numColors 1 (MaxY (Bounds layer) - 1) (p, s) =
           Some (Inr (RGBA_Set p (MinX (Bounds layer)) (MinY (Bounds layer)) (gradient ! 0), s))"
    using assms(2) by (intro line_rows_up assms(1,3,4) ne) auto
  then have "applyEffect F rnd layer colorA colorB numColors DirectionUp s =
             Some (Inr (RGBA_Set p (MinX (Bounds layer)) (MinY (Bounds layer)) (gradient ! 0), s))"
    by (simp add: applyEffect_def p g DirectionUp_def Let_def)
  with p g show ?thesis by blast
qed

text \<open>C5, amended: the theorem at the layer of 1 by 3 pixels with the lower two set.\<close>

theorem flame_line_one_pixel_above_witness:
  "MaxX (Bounds line_layer) = MinX (Bounds line_layer) + 1 \<and>
   MinY (Bounds line_layer) + 1 < MaxY (Bounds line_layer) \<and>
   layer_alpha line_layer (MinX (Bounds line_layer)) (MinY (Bounds line_layer)) = 0 \<and>
   layer_alpha line_layer 0 1 \<noteq> 0 \<and> layer_alpha line_layer 0 2 \<noteq> 0 \<and>
   applyEffect exact_ops (mock_rand 1 0) line_layer (opaque 255 0 0) (opaque 0 0 255) 3
     DirectionUp 0 =
     Some (Inr (\<lparr>Pix = [px 255 0 0 255, px 0 0 0 0, px 0 0 0 0],
                 Stride = 1, Rect = rect 0 0 1 3\<rparr>, 0))"
proof -
  have b: "Bounds line_layer = rect 0 0 1 3"
    by (simp add: line_layer_def)
  have w: "MaxX (Bounds line_layer) = MinX (Bounds line_layer) + 1"
    and h: "MinY (Bounds line_layer) + 1 < MaxY (Bounds line_layer)"
    by (simp_all add: b rect_def)
  have top: "layer_alpha line_layer (MinX (Bounds line_layer)) (MinY (Bounds line_layer)) = 0"
    by code_simp
  have set1: "layer_alpha line_layer 0 1 \<noteq> 0" and set2: "layer_alpha line_layer 0 2 \<noteq> 0"
    by code_simp+
  have line: "\<forall>y. MinY (Bounds line_layer) < y \<and> y < MaxY (Bounds line_layer)
           \<longrightarrow> layer_alpha line_layer (MinX (Bounds line_layer)) y \<noteq> 0"
  proof (intro allI impI)
    fix y :: int
    assume "MinY (Bounds line_layer) < y \<and> y < MaxY (Bounds line_layer)"
    then have "y = 1 \<or> y = 2" by (auto simp: b rect_def)
    with set1 set2 show "layer_alpha line_layer (MinX (Bounds line_layer)) y \<noteq> 0"
      by (auto simp: b rect_def)
  qed
  have n: "(1 :: int) \<le> 3"
    by simp
  from flame_line_one_pixel_above [OF w h top line n, of exact_ops "opaque 255 0 0" "opaque 0 0 255"
      "mock_rand 1 0" 0]
  obtain p gradient where
    p: "NewRGBA (Bounds line_layer) = Inr p" and
    g: "build_gradient exact_ops (opaque 255 0 0) (opaque 0 0 255) 3 = Inr gradient" and
    run: "applyEffect exact_ops (mock_rand 1 0) line_layer (opaque 255 0 0) (opaque 0 0 255) 3
            DirectionUp 0 =
          Some (Inr (RGBA_Set p (MinX (Bounds line_layer)) (MinY (Bounds line_layer)) (gradient ! 0), 0))"
    by blast
  have "NewRGBA (Bounds line_layer) =
      Inr \<lparr>Pix = [px 0 0 0 0, px 0 0 0 0, px 0 0 0 0], Stride = 1, Rect = rect 0 0 1 3\<rparr>"
    by code_simp
  with p have p': "p = \<lparr>Pix = [px 0 0 0 0, px 0 0 0 0, px 0 0 0 0], Stride = 1, Rect = rect 0 0 1 3\<rparr>"
    by simp
  have "build_gradient exact_ops (opaque 255 0 0) (opaque 0 0 255) 3 = Inr red_blue_3"
    by code_simp
  with g have g': "gradient = red_blue_3"
    by simp
  have "RGBA_Set \<lparr>Pix = [px 0 0 0 0, px 0 0 0 0, px 0 0 0 0], Stride = 1, Rect = rect 0 0 1 3\<rparr>
          (MinX (Bounds line_layer)) (MinY (Bounds line_layer)) (red_blue_3 ! 0) =
        \<lparr>Pix = [px 255 0 0 255, px 0 0 0 0, px 0 0 0 0], Stride = 1, Rect = rect 0 0 1 3\<rparr>"
    by code_simp
  with run p' g' w h top set1 set2 show ?thesis
    by simp
qed

subsection \<open>C6: determinism under a constant random source\<close>

lemma effect_thinning_det:
  assumes "const_source rnd"
  shows "fst (effect_thinning rnd n s1) = fst (effect_thinning rnd n s2)"
proof -
  from assms obtain r where r: "\<And>s. fst (rand_Float64 rnd s) = r"
    unfolding const_source_def by metis
  show ?thesis
    by (simp add: effect_thinning_def Let_def case_prod_beta r)
qed

lemma effect_pixel_det:
  assumes "const_source rnd" "fst st1 = fst st2"
  shows "map_r fst (effect_pixel rnd layer gradient numColors direction y x st1) =
         map_r fst (effect_pixel rnd layer gradient numColors direction y x st2)"
proof -
  obtain e s1 s2 where st: "st1 = (e, s1)" "st2 = (e, s2)"
    using assms(2) by (cases st1, cases st2) auto
  obtain sk where sk: "\<And>s. fst (effect_thinning rnd
      (effect_numNeighbors layer e (Bounds layer) x y) s) = sk"
    using effect_thinning_det[OF assms(1)] by metis
  show ?thesis
    unfolding st effect_pixel_def Let_def case_prod_beta
    by (simp add: sk split: sum.splits)
qed

lemma effect_row_det:
  assumes "const_source rnd" "fst st1 = fst st2"
  shows "map_r fst (effect_row rnd layer gradient numColors direction y st1) =
         map_r fst (effect_row rnd layer gradient numColors direction y st2)"
  unfolding effect_row_def
  by (rule fold_r_det) (auto intro: effect_pixel_det assms)

lemma effect_rows_det_Some:
  fixes rnd :: "'s rand_source"
  assumes "effect_rows rnd layer gradient numColors direction y st1 = Some r1"
    and "const_source rnd" "fst st1 = fst st2"
  shows "\<exists>r2. effect_rows rnd layer gradient numColors direction y st2 = Some r2 \<and>
              map_r fst r1 = map_r fst r2"
proof -
  have "const_source rnd \<longrightarrow>
        (\<forall>st2. fst st1 = fst st2 \<longrightarrow>
           (\<exists>r2. effect_rows rnd layer gradient numColors direction y st2 = Some r2 \<and>
                 map_r fst r1 = map_r fst r2))"
  proof (rule effect_rows.raw_induct
          [where P = "\<lambda>rnd layer gradient numColors direction y st r.
             const_source rnd \<longrightarrow>
             (\<forall>st2. fst st = fst st2 \<longrightarrow>
                (\<exists>r2. effect_rows rnd layer gradient numColors direction y st2 = Some r2 \<and>
                      map_r fst r = map_r fst r2))",
           OF _ assms(1)], intro impI allI)
    fix f and rnd :: "'s rand_source" and layer gradient numColors direction y
      and st st2 :: "rgba_image \<times> 's" and r
    assume IH: "\<And>rnd layer gradient numColors direction y st r.
             f rnd layer gradient numColors direction y st = Some r \<Longrightarrow>
             const_source rnd \<longrightarrow>
             (\<forall>st2. fst st = fst st2 \<longrightarrow>
                (\<exists>r2. effect_rows rnd layer gradient numColors direction y st2 = Some r2 \<and>
                      map_r fst r = map_r fst r2))"
      and body: "(if MinY (Bounds layer) \<le> y \<and> y < MaxY (Bounds layer)
           then case effect_row rnd layer gradient numColors direction y st of
                  Inl e \<Rightarrow> Some (Inl e)
                | Inr st' \<Rightarrow> f rnd layer gradient numColors direction (y - direction) st'
           else Some (Inr st)) = Some r"
      and c: "const_source rnd" and eq: "fst st = fst st2"
    note row = effect_row_det[OF c eq, of layer gradient numColors direction y]
    show "\<exists>r2. effect_rows rnd layer gradient numColors direction y st2 = Some r2 \<and>
               map_r fst r = map_r fst r2"
    proof (cases "MinY (Bounds layer) \<le> y \<and> y < MaxY (Bounds layer)")
      case False
      have "effect_rows rnd layer gradient numColors direction y st2 = Some (Inr st2)"
        by (subst effect_rows.simps) (simp add: False)
      moreover have "r = Inr st" using body False by simp
      ultimately show ?thesis using eq by simp
    next
      case True
      show ?thesis
      proof (cases "effect_row rnd layer gradient numColors direction y st")
        case (Inl e)
        with row have e2: "effect_row rnd layer gradient numColors direction y st2 = Inl e"
          by (cases "effect_row rnd layer gradient numColors direction y st2") simp_all
        have "effect_rows rnd layer gradient numColors direction y st2 = Some (Inl e)"
          by (subst effect_rows.simps) (simp add: True e2)
        moreover have "r = Inl e" using body True Inl by simp
        ultimately show ?thesis by simp
      next
        case (Inr st')
        with row obtain st2' where
          r2: "effect_row rnd layer gradient numColors direction y st2 = Inr st2'"
          and eq': "fst st' = fst st2'"
          by (cases "effect_row rnd layer gradient numColors direction y st2") simp_all
        from body True Inr
        have "f rnd layer gradient numColors direction (y - direction) st' = Some r" by simp
        from IH[OF this] c eq' obtain r2 where
          n: "effect_rows rnd layer gradient numColors direction (y - direction) st2' = Some r2"
          and m: "map_r fst r = map_r fst r2" by blast
        have "effect_rows rnd layer gradient numColors direction y st2 = Some r2"
          by (subst effect_rows.simps) (simp add: True r2 n)
        with m show ?thesis by simp
      qed
    qed
  qed
  with assms(2,3) show ?thesis by blast
qed

lemma effect_rows_det:
  assumes "const_source rnd" "fst st1 = fst st2"
  shows "map_option (map_r fst) (effect_rows rnd layer gradient numColors direction y st1) =
         map_option (map_r fst) (effect_rows rnd layer gradient numColors direction y st2)"
proof (cases "effect_rows rnd layer gradient numColors direction y st1")
  case None
  have "effect_rows rnd layer gradient numColors direction y st2 = None"
  proof (rule ccontr)
    assume "effect_rows rnd layer gradient numColors direction y st2 \<noteq> None"
    then obtain r2 where "effect_rows rnd layer gradient numColors direction y st2 = Some r2"
      by auto
    from effect_rows_det_Some[OF this assms(1) assms(2)[symmetric]] None show False by simp
  qed
  with None show ?thesis by simp
next
  case (Some r1)
  from effect_rows_det_Some[OF Some assms] Some show ?thesis by auto
qed

lemma applyEffect_det:
  assumes "const_source rnd"
  shows "map_option buffer_of (applyEffect F rnd layer colorA colorB numColors direction s1) =
         map_option buffer_of (applyEffect F rnd layer colorA colorB numColors direction s2)"
proof -
  have b: "buffer_of = map_r fst" by (auto simp: buffer_of_def)
  show ?thesis
    unfolding b applyEffect_def Let_def
    by (auto split: sum.splits intro!: effect_rows_det assms)
qed

lemma glow_pixel_det:
  assumes "const_source rnd" "fst st1 = fst st2"
  shows "fst (glow_pixel rnd layer gradient colorIndex c y x st1) =
         fst (glow_pixel rnd layer gradient colorIndex c y x st2)"
proof -
  obtain e s1 s2 where st: "st1 = (e, s1)" "st2 = (e, s2)"
    using assms(2) by (cases st1, cases st2) auto
  from assms(1) obtain r where r: "\<And>s. fst (rand_Float64 rnd s) = r"
    unfolding const_source_def by metis
  show ?thesis
    unfolding st glow_pixel_def glow_propagate_pixel_def Let_def case_prod_beta
    by (simp add: r)
qed

lemma glow_pass_det:
  assumes "const_source rnd" "fst st1 = fst st2"
  shows "fst (glow_pass rnd layer gradient ic st1) = fst (glow_pass rnd layer gradient ic st2)"
  unfolding glow_pass_def
  by (rule fold_det[where out = fst], rule fold_det[where out = fst])
     (auto intro: glow_pixel_det assms)

lemma ApplyGlowEffect_det:
  assumes "const_source rnd"
  shows "buffer_of (ApplyGlowEffect F rnd layer colorA colorB s1) =
         buffer_of (ApplyGlowEffect F rnd layer colorA colorB s2)"
  unfolding buffer_of_def ApplyGlowEffect_def
  by (auto split: sum.splits intro!: fold_det[where out = fst] glow_pass_det assms)

lemma corrosion_cell_det:
  assumes "const_source rnd" "fst st1 = fst st2"
  shows "map_r fst (corrosion_cell rnd layer prev y x st1) =
         map_r fst (corrosion_cell rnd layer prev y x st2)"
proof -
  obtain cur s1 s2 where st: "st1 = (cur, s1)" "st2 = (cur, s2)"
    using assms(2) by (cases st1, cases st2) auto
  from assms(1) obtain k where k: "\<And>s. fst (rand_Intn rnd 8 s) = k"
    unfolding const_source_def by metis
  show ?thesis
    unfolding st corrosion_cell_def Let_def case_prod_beta
    by (simp add: k split: sum.splits)
qed

lemma corrosion_step_det:
  assumes "const_source rnd" "(fst st1, fst (snd st1)) = (fst st2, fst (snd st2))"
  shows "map_r (\<lambda>t. (fst t, fst (snd t))) (corrosion_step rnd layer i st1) =
         map_r (\<lambda>t. (fst t, fst (snd t))) (corrosion_step rnd layer i st2)"
proof -
  obtain cur prev s1 s2 where st: "st1 = (cur, prev, s1)" "st2 = (cur, prev, s2)"
    using assms(2) by (cases st1, cases st2) auto
  let ?sweep = "\<lambda>s. fold_r (\<lambda>y. fold_r (corrosion_cell rnd layer prev y)
                             [MinX (Bounds layer)..MaxX (Bounds layer) - 1])
                [MinY (Bounds layer)..MaxY (Bounds layer) - 1] (cur, s)"
  have sw: "map_r fst (?sweep s1) = map_r fst (?sweep s2)"
    by (rule fold_r_det[where out = fst], rule fold_r_det[where out = fst])
       (auto intro: corrosion_cell_det assms(1))
  show ?thesis
  proof (cases "?sweep s1")
    case (Inl e)
    with sw have "?sweep s2 = Inl e" by (cases "?sweep s2") auto
    with Inl show ?thesis by (simp add: st corrosion_step_def)
  next
    case (Inr a)
    with sw obtain b where "?sweep s2 = Inr b" "fst a = fst b" by (cases "?sweep s2") auto
    with Inr show ?thesis by (simp add: st corrosion_step_def case_prod_beta)
  qed
qed

lemma ApplyCorrosion_det:
  assumes "const_source rnd"
  shows "buffer_of (ApplyCorrosion rnd layer col numIterations numSeeds s1) =
         buffer_of (ApplyCorrosion rnd layer col numIterations numSeeds s2)"
proof -
  let ?b = "Bounds layer"
  let ?n = "Dx ?b * Dy ?b"
  obtain perm t1 t2 where perm: "rand_Perm rnd ?n s1 = (perm, t1)" "rand_Perm rnd ?n s2 = (perm, t2)"
    using assms unfolding const_source_def
    by (metis fst_conv surj_pair)
  let ?out = "\<lambda>t :: bool list \<times> bool list \<times> 'a. (fst t, fst (snd t))"
  have it: "map_r ?out (fold_r (corrosion_step rnd layer) [0..numIterations - 1] (cur1, prev, t1)) =
            map_r ?out (fold_r (corrosion_step rnd layer) [0..numIterations - 1] (cur1, prev, t2))"
    for cur1 prev
    by (rule fold_r_det[where out = ?out]) (auto intro: corrosion_step_det assms)
  show ?thesis
  proof (cases "make_r ?n False :: panic + bool list")
    case (Inl e)
    then show ?thesis by (simp add: ApplyCorrosion_def buffer_of_def bind_r_def Let_def)
  next
    case (Inr g0)
    show ?thesis
    proof (cases "corrosion_seeds layer ?b perm g0 numSeeds")
      case (Inl e)
      with Inr perm show ?thesis by (simp add: ApplyCorrosion_def buffer_of_def bind_r_def Let_def)
    next
      case seeds: (Inr cur1)
      let ?it = "\<lambda>t. fold_r (corrosion_step rnd layer) [0..numIterations - 1] (cur1, g0, t)"
      show ?thesis
      proof (cases "?it t1")
        case (Inl e)
        with it[of cur1 g0] have "?it t2 = Inl e" by (cases "?it t2") auto
        with Inl Inr seeds perm show ?thesis
          by (simp add: ApplyCorrosion_def buffer_of_def bind_r_def Let_def)
      next
        case r1: (Inr a)
        with it[of cur1 g0] obtain b where r2: "?it t2 = Inr b" and ab: "?out a = ?out b"
          by (cases "?it t2") auto
        obtain c2 p2 u1 where a: "a = (c2, p2, u1)" by (cases a) auto
        with ab obtain u2 where b: "b = (c2, p2, u2)" by (cases b) auto
        from r1 r2 Inr seeds perm show ?thesis
          by (simp add: ApplyCorrosion_def buffer_of_def bind_r_def Let_def a b split: sum.splits)
      qed
    qed
  qed
qed

text \<open>
  C6: with a random source that returns constant values, the outcome of each engine
  (the buffer, or the panic, or not returning) does not depend on the state of the
  generator: any two runs on the same layer, colours and parameters, such as a run and a
  second run started where the first left the generator, give identical buffers.
\<close>

theorem engines_deterministic:
  assumes "const_source rnd"
  shows "map_option buffer_of (applyEffect F rnd layer colorA colorB numColors direction s) =
           map_option buffer_of (applyEffect F rnd layer colorA colorB numColors direction s') \<and>
         buffer_of (ApplyGlowEffect F rnd layer colorA colorB s) =
           buffer_of (ApplyGlowEffect F rnd layer colorA colorB s') \<and>
         buffer_of (ApplyCorrosion rnd layer col numIterations numSeeds s) =
           buffer_of (ApplyCorrosion rnd layer col numIterations numSeeds s')"
  using applyEffect_det[OF assms] ApplyGlowEffect_det[OF assms] ApplyCorrosion_det[OF assms]
  by blast

text \<open>C6: the theorem at the mocked source, for runs started from two different states.\<close>

theorem engines_deterministic_witness:
  "const_source (mock_rand 1 0) \<and>
   map_option buffer_of
     (applyEffect exact_ops (mock_rand 1 0) dot_layer (opaque 255 0 0) (opaque 0 0 255) 3
        DirectionUp 0) =
   map_option buffer_of
     (applyEffect exact_ops (mock_rand 1 0) dot_layer (opaque 255 0 0) (opaque 0 0 255) 3
        DirectionUp 16) \<and>
   buffer_of (ApplyGlowEffect exact_ops (mock_rand 1 0) dot_layer (opaque 255 0 0) (opaque 0 0 255) 0) =
   buffer_of (ApplyGlowEffect exact_ops (mock_rand 1 0) dot_layer (opaque 255 0 0) (opaque 0 0 255) 16) \<and>
   buffer_of (ApplyCorrosion (mock_rand 1 0) dot_layer (opaque 0 255 0) 2 1 0) =
   buffer_of (ApplyCorrosion (mock_rand 1 0) dot_layer (opaque 0 255 0) 2 1 16)"
proof -
  have c: "const_source (mock_rand 1 0)"
    by (simp add: const_source_def mock_rand_def)
  from engines_deterministic [OF c, where F = exact_ops and layer = dot_layer
      and colorA = "opaque 255 0 0" and colorB = "opaque 0 0 255" and numColors = 3
      and direction = DirectionUp and s = 0 and s' = 16 and col = "opaque 0 255 0"
      and numIterations = 2 and numSeeds = 1] c
  show ?thesis
    by blast
qed

subsection \<open>C7: the returned buffer\<close>

text \<open>
  The directional engine returns for the two directions it is called with, at least one
  colour and a rectangle without a negative dimension; the glow engine returns for every
  such rectangle.
\<close>

lemma gradient_index_nonneg: "0 \<le> i \<Longrightarrow> 0 \<le> gradient_index g p i"
  by (induction g p i rule: gradient_index.induct) auto

lemma effect_pixel_total:
  assumes "gradient \<noteq> []" "int (length gradient) = numColors"
  shows "\<exists>st'. effect_pixel rnd layer gradient numColors direction y x st = Inr st'"
proof -
  have z: "index_r gradient 0 = Inr (gradient ! 0)" using assms(1) by (simp add: index_r_def)
  have n: "index_r gradient (i + 1) = Inr (gradient ! nat (i + 1))"
    if "0 \<le> i" "i < numColors - 1" for i
    using that assms(2) by (simp add: index_r_def)
  obtain e s where st: "st = (e, s)" by (cases st)
  show ?thesis
    unfolding st effect_pixel_def Let_def case_prod_beta
    using z n[OF gradient_index_nonneg[of 0 gradient "RGBA_At e x (y + direction)"]]
    by simp
qed

lemma effect_row_total:
  assumes "gradient \<noteq> []" "int (length gradient) = numColors"
  shows "\<exists>st'. effect_row rnd layer gradient numColors direction y st = Inr st'"
proof -
  have "\<exists>r. fold_r (effect_pixel rnd layer gradient numColors direction y)
       [MinX (Bounds layer)..MaxX (Bounds layer) - 1] st = Inr r \<and> True"
  proof (rule fold_r_total)
    show True ..
  next
    fix x a
    from effect_pixel_total[OF assms]
    show "\<exists>a'. effect_pixel rnd layer gradient numColors direction y x a = Inr a' \<and> True"
      by simp
  qed
  then show ?thesis by (simp add: effect_row_def)
qed

lemma effect_rows_total_up:
  assumes "gradient \<noteq> []" "int (length gradient) = numColors"
  shows "\<exists>st'. effect_rows rnd layer gradient numColors 1 y st = Some (Inr st')"
proof (induction "nat (y - MinY (Bounds layer) + 1)" arbitrary: y st)
  case 0
  then have "\<not> (MinY (Bounds layer) \<le> y \<and> y < MaxY (Bounds layer))" by simp
  then show ?case by (subst effect_rows.simps) auto
next
  case (Suc n)
  show ?case
  proof (cases "MinY (Bounds layer) \<le> y \<and> y < MaxY (Bounds layer)")
    case False
    then show ?thesis by (subst effect_rows.simps) auto
  next
    case True
    from effect_row_total[OF assms] obtain st1 where
      r: "effect_row rnd layer gradient numColors 1 y st = Inr st1" by blast
    have "\<exists>st'. effect_rows rnd layer gradient numColors 1 (y - 1) st1 = Some (Inr st')"
      using Suc.hyps(2) by (intro Suc.hyps(1)) simp
    then show ?thesis using True r by (subst effect_rows.simps) simp
  qed
qed

lemma effect_rows_total_down:
  assumes "gradient \<noteq> []" "int (length gradient) = numColors"
  shows "\<exists>st'. effect_rows rnd layer gradient numColors (- 1) y st = Some (Inr st')"
proof (induction "nat (MaxY (Bounds layer) - y)" arbitrary: y st)
  case 0
  then have "\<not> (MinY (Bounds layer) \<le> y \<and> y < MaxY (Bounds layer))" by simp
  then show ?case by (subst effect_rows.simps) auto
next
  case (Suc n)
  show ?case
  proof (cases "MinY (Bounds layer) \<le> y \<and> y < MaxY (Bounds layer)")
    case False
    then show ?thesis by (subst effect_rows.simps) auto
  next
    case True
    from effect_row_total[OF assms] obtain st1 where
      r: "effect_row rnd layer gradient numColors (- 1) y st = Inr st1" by blast
    have "\<exists>st'. effect_rows rnd layer gradient numColors (- 1) (y + 1) st1 = Some (Inr st')"
      using Suc.hyps(2) by (intro Suc.hyps(1)) simp
    then show ?thesis using True r by (subst effect_rows.simps) simp
  qed
qed

lemma applyEffect_returns:
  assumes "0 \<le> Dx (Bounds layer)" "0 \<le> Dy (Bounds layer)" "1 \<le> numColors"
    and "direction = DirectionUp \<or> direction = DirectionDown"
  shows "\<exists>img s'. applyEffect F rnd layer colorA colorB numColors direction s = Some (Inr (img, s'))
           \<and> rgba_wf img \<and> Rect img = Bounds layer"
proof -
  from assms(1,2) obtain p where p: "NewRGBA (Bounds layer) = Inr p"
    by (auto simp: NewRGBA_def)
  from assms(3) obtain gradient where g: "build_gradient F colorA colorB numColors = Inr gradient"
    by (auto simp: build_gradient_def)
  from length_build_gradient[OF g] assms(3) have ne: "gradient \<noteq> []"
    and len: "int (length gradient) = numColors" by auto
  let ?y = "if direction = - 1 then MinY (Bounds layer) else MaxY (Bounds layer) - 1"
  from assms(4) effect_rows_total_up[OF ne len] effect_rows_total_down[OF ne len]
  obtain st' where rows: "effect_rows rnd layer gradient numColors direction ?y (p, s) = Some (Inr st')"
    unfolding DirectionUp_def DirectionDown_def by metis
  obtain img s' where st': "st' = (img, s')" by (cases st')
  from effect_rows_inv[OF rows] NewRGBA_effect_inv[OF p] have "effect_inv layer img"
    by (simp add: st')
  moreover have "applyEffect F rnd layer colorA colorB numColors direction s = Some (Inr (img, s'))"
    using rows by (simp add: applyEffect_def p g Let_def st')
  ultimately show ?thesis by (auto simp: effect_inv_def)
qed

lemma flame_and_drip_return:
  assumes "0 \<le> Dx (Bounds layer)" "0 \<le> Dy (Bounds layer)"
  shows "\<exists>img s'. ApplyFlameEffect F rnd layer colorA colorB s = Some (Inr (img, s'))
           \<and> rgba_wf img \<and> Rect img = Bounds layer"
    and "\<exists>img s'. ApplyDripEffect F rnd layer colorA colorB s = Some (Inr (img, s'))
           \<and> rgba_wf img \<and> Rect img = Bounds layer"
  unfolding ApplyFlameEffect_def ApplyDripEffect_def
  by (rule applyEffect_returns[OF assms], simp, simp)+

lemma fill_fold_wf:
  "rgba_wf (fold (\<lambda>(u, v) e. if effect_alpha e u v = 0 then RGBA_Set e u v c else e) xs e) = rgba_wf e
   \<and> Rect (fold (\<lambda>(u, v) e. if effect_alpha e u v = 0 then RGBA_Set e u v c else e) xs e) = Rect e"
  by (induction xs arbitrary: e) (auto split: prod.splits)

lemma seed_fold_wf:
  "rgba_wf (fold (\<lambda>(u, v) e. if layer_alpha layer u v \<noteq> 0 then e
                   else if effect_alpha e u v = 0 then RGBA_Set e u v c else e) xs e) = rgba_wf e
   \<and> Rect (fold (\<lambda>(u, v) e. if layer_alpha layer u v \<noteq> 0 then e
                   else if effect_alpha e u v = 0 then RGBA_Set e u v c else e) xs e) = Rect e"
  by (induction xs arbitrary: e) (auto split: prod.splits)

lemma glow_pixel_wf:
  "rgba_wf (fst (glow_pixel rnd layer gradient colorIndex c y x st)) = rgba_wf (fst st) \<and>
   Rect (fst (glow_pixel rnd layer gradient colorIndex c y x st)) = Rect (fst st)"
  by (simp add: glow_pixel_def glow_seed_pixel_def glow_propagate_pixel_def glow_fill_def
        Let_def case_prod_beta seed_fold_wf fill_fold_wf)

lemma glow_pass_wf:
  assumes "rgba_wf (fst st) \<and> Rect (fst st) = r"
  shows "rgba_wf (fst (glow_pass rnd layer gradient ic st)) \<and>
         Rect (fst (glow_pass rnd layer gradient ic st)) = r"
  unfolding glow_pass_def
proof (rule fold_invariant[where P = "\<lambda>t. rgba_wf (fst t) \<and> Rect (fst t) = r"])
  show "rgba_wf (fst st) \<and> Rect (fst st) = r" by (rule assms)
next
  fix y and a :: "rgba_image \<times> 'a"
  assume a: "rgba_wf (fst a) \<and> Rect (fst a) = r"
  show "rgba_wf (fst (fold (glow_pixel rnd layer gradient (fst ic) (snd ic) y)
                  [MinX (Bounds layer)..MaxX (Bounds layer) - 1] a)) \<and>
        Rect (fst (fold (glow_pixel rnd layer gradient (fst ic) (snd ic) y)
                  [MinX (Bounds layer)..MaxX (Bounds layer) - 1] a)) = r"
    by (rule fold_invariant[where P = "\<lambda>t. rgba_wf (fst t) \<and> Rect (fst t) = r"])
       (simp_all add: a glow_pixel_wf)
qed

lemma ApplyGlowEffect_returns:
  assumes "0 \<le> Dx (Bounds layer)" "0 \<le> Dy (Bounds layer)"
  shows "\<exists>img s'. ApplyGlowEffect F rnd layer colorA colorB s = Inr (img, s')
           \<and> rgba_wf img \<and> Rect img = Bounds layer"
proof -
  from assms obtain p where p: "NewRGBA (Bounds layer) = Inr p"
    by (auto simp: NewRGBA_def)
  obtain gradient where g: "build_gradient F colorA colorB glow_numColors = Inr gradient"
    by (auto simp: build_gradient_def glow_numColors_def)
  let ?r = "fold (glow_pass rnd layer gradient) (enumerate 0 gradient) (p, s)"
  have "rgba_wf (fst ?r) \<and> Rect (fst ?r) = Bounds layer"
    by (rule fold_invariant[where P = "\<lambda>t. rgba_wf (fst t) \<and> Rect (fst t) = Bounds layer"])
       (simp_all add: NewRGBA_wf[OF p] glow_pass_wf)
  moreover have "ApplyGlowEffect F rnd layer colorA colorB s = Inr (fst ?r, snd ?r)"
    by (simp add: ApplyGlowEffect_def p g)
  ultimately show ?thesis by blast
qed

text \<open>
  The corrosion engine returns when the rectangle of the layer starts at the origin and
  \<^verbatim>\<open>rand.Perm\<close> returns indices of cells.
\<close>

lemma origin_index_range:
  assumes "MinX b = 0" "MinY b = 0" "point_In x y b"
  shows "0 \<le> y * Dx b + x" "y * Dx b + x < Dx b * Dy b"
proof -
  have a: "0 \<le> x" "x < Dx b" "0 \<le> y" "y < Dy b"
    using assms by (auto simp: point_In_def Dx_def Dy_def)
  from cell_offset_bounds[OF a] show "0 \<le> y * Dx b + x" "y * Dx b + x < Dx b * Dy b" .
qed

lemma corrosion_seeds_total:
  assumes "\<forall>i \<in> set perm. 0 \<le> i \<and> i < int (length cur)" "perm \<noteq> [] \<longrightarrow> Dx b \<noteq> 0"
  shows "\<exists>cur'. corrosion_seeds layer b perm cur n = Inr cur' \<and> length cur' = length cur"
  using assms
proof (induction perm arbitrary: cur n)
  case Nil
  then show ?case by simp
next
  case (Cons i rest)
  from Cons.prems have W: "Dx b \<noteq> 0" and i: "0 \<le> i" "i < int (length cur)" by auto
  have st: "store_r cur i True = Inr (cur[nat i := True])" using i by (simp add: store_r_def)
  have rest: "\<exists>cur'. corrosion_seeds layer b rest c m = Inr cur' \<and> length cur' = length c"
    if "length c = length cur" for c m
    using Cons.prems W that by (intro Cons.IH) auto
  show ?case
  proof (cases "layer_alpha layer (go_rem i (Dx b)) (go_quo i (Dx b)) \<noteq> 0")
    case True
    with rest[of "cur[nat i := True]" "n - 1"] W st show ?thesis
      by (auto simp: Let_def)
  next
    case False
    with rest[of cur n] W show ?thesis
      by (auto simp: Let_def)
  qed
qed

lemma corrosion_numNeighbors_total:
  assumes "MinX b = 0" "MinY b = 0" "int (length prev) = Dx b * Dy b"
  shows "\<exists>k. corrosion_numNeighbors b prev x y = Inr k"
proof -
  let ?f = "\<lambda>(u, v) n.
               case index_r prev (v * Dx b + u) of
                 Inl e \<Rightarrow> Inl e
               | Inr c \<Rightarrow> Inr (if c then n + 1 else n :: int)"
  have "\<exists>r. fold_r ?f (neighbors3x3 b x y) 0 = Inr r \<and> True"
  proof (rule fold_r_total[where f = ?f and P = "\<lambda>_. True"])
    show True ..
  next
    fix p :: "int \<times> int" and a :: int
    assume m: "p \<in> set (neighbors3x3 b x y)"
    obtain u v where p: "p = (u, v)" by (cases p)
    from m have "point_In u v b" unfolding p in_neighbors3x3 by simp
    from origin_index_range[OF assms(1,2) this] assms(3)
    show "\<exists>a'. ?f p a = Inr a' \<and> True"
      by (simp add: p index_r_def)
  qed
  then show ?thesis by (simp add: corrosion_numNeighbors_def)
qed

lemma corrosion_cell_total:
  assumes "MinX (Bounds layer) = 0" "MinY (Bounds layer) = 0"
    and "int (length prev) = Dx (Bounds layer) * Dy (Bounds layer)"
    and "length (fst st) = length prev"
  shows "\<exists>st'. corrosion_cell rnd layer prev y x st = Inr st' \<and> length (fst st') = length prev"
proof (cases "layer_alpha layer x y = 0")
  case True
  with assms(4) show ?thesis by (simp add: corrosion_cell_def Let_def case_prod_beta)
next
  case False
  obtain cur s where st: "st = (cur, s)" by (cases st)
  let ?i = "y * Dx (Bounds layer) + x"
  from origin_index_range[OF assms(1,2) layer_alpha_In[OF False]] assms(3)
  have r: "0 \<le> ?i" "?i < int (length prev)" by simp_all
  then have ix: "index_r prev ?i = Inr (prev ! nat ?i)" by (simp add: index_r_def)
  have sto: "store_r cur ?i True = Inr (cur[nat ?i := True])"
    using r assms(4) by (simp add: store_r_def st)
  from corrosion_numNeighbors_total[OF assms(1,2,3)] obtain k where
    k: "corrosion_numNeighbors (Bounds layer) prev x y = Inr k" by blast
  show ?thesis
    using False assms(4)
    by (simp add: corrosion_cell_def Let_def case_prod_beta st ix sto k)
qed

lemma corrosion_step_total:
  assumes "MinX (Bounds layer) = 0" "MinY (Bounds layer) = 0"
    and "int (length (fst st)) = Dx (Bounds layer) * Dy (Bounds layer)"
    and "length (fst (snd st)) = length (fst st)"
  shows "\<exists>st'. corrosion_step rnd layer i st = Inr st' \<and>
           length (fst st') = length (fst st) \<and> length (fst (snd st')) = length (fst st)"
proof -
  obtain cur prev s where st: "st = (cur, prev, s)" by (cases st) auto
  from assms(3,4) have lp: "int (length prev) = Dx (Bounds layer) * Dy (Bounds layer)"
    and lc: "length cur = length prev" by (simp_all add: st)
  have "\<exists>r. fold_r (\<lambda>y. fold_r (corrosion_cell rnd layer prev y)
                             [MinX (Bounds layer)..MaxX (Bounds layer) - 1])
                [MinY (Bounds layer)..MaxY (Bounds layer) - 1] (cur, s) = Inr r
             \<and> length (fst r) = length prev"
  proof (rule fold_r_total[where P = "\<lambda>t. length (fst t) = length prev"])
    show "length (fst (cur, s)) = length prev" using lc by simp
  next
    fix y and a :: "bool list \<times> 'a"
    assume a: "length (fst a) = length prev"
    show "\<exists>a'. fold_r (corrosion_cell rnd layer prev y)
             [MinX (Bounds layer)..MaxX (Bounds layer) - 1] a = Inr a' \<and> length (fst a') = length prev"
      by (rule fold_r_total[where P = "\<lambda>t. length (fst t) = length prev", OF a])
         (rule corrosion_cell_total[OF assms(1,2) lp])
  qed
  then obtain r where "fold_r (\<lambda>y. fold_r (corrosion_cell rnd layer prev y)
                             [MinX (Bounds layer)..MaxX (Bounds layer) - 1])
                [MinY (Bounds layer)..MaxY (Bounds layer) - 1] (cur, s) = Inr r"
    "length (fst r) = length prev" by blast
  then show ?thesis using lc by (simp add: corrosion_step_def st case_prod_beta)
qed

lemma corrosion_paint_total:
  assumes "MinX b = 0" "MinY b = 0" "int (length prev) = Dx b * Dy b" "point_In x y b"
  shows "corrosion_paint b prev col y x p =
           Inr (if prev ! nat (y * Dx b + x) then RGBA_Set p x y (RGBAModel_Convert col) else p)"
  using origin_index_range[OF assms(1,2,4)] assms(3)
  by (simp add: corrosion_paint_def index_r_def Let_def)

lemma corrosion_paint_loop_total:
  assumes "MinX b = 0" "MinY b = 0" "int (length prev) = Dx b * Dy b" "P p"
    and "\<And>x y q. point_In x y b \<Longrightarrow> P q \<Longrightarrow> prev ! nat (y * Dx b + x)
           \<Longrightarrow> P (RGBA_Set q x y (RGBAModel_Convert col))"
  shows "\<exists>img. fold_r (\<lambda>y. fold_r (corrosion_paint b prev col y) [MinX b..MaxX b - 1])
              [MinY b..MaxY b - 1] p = Inr img \<and> P img"
proof (rule fold_r_total[where P = P, OF assms(4)])
  fix y q
  assume y: "y \<in> set [MinY b..MaxY b - 1]" and q: "P q"
  show "\<exists>a'. fold_r (corrosion_paint b prev col y) [MinX b..MaxX b - 1] q = Inr a' \<and> P a'"
  proof (rule fold_r_total[where P = P, OF q])
    fix x q'
    assume x: "x \<in> set [MinX b..MaxX b - 1]" and q': "P q'"
    from x y have "point_In x y b" by (simp add: point_In_def)
    from corrosion_paint_total[OF assms(1,2,3) this] assms(5)[OF this q'] q'
    show "\<exists>a'. corrosion_paint b prev col y x q' = Inr a' \<and> P a'" by simp
  qed
qed

lemma ApplyCorrosion_returns_at_origin:
  assumes "MinX (Bounds layer) = 0" "MinY (Bounds layer) = 0"
    and "0 \<le> MaxX (Bounds layer)" "0 \<le> MaxY (Bounds layer)"
    and "\<forall>i \<in> set (fst (rand_Perm rnd (Dx (Bounds layer) * Dy (Bounds layer)) s)).
           0 \<le> i \<and> i < Dx (Bounds layer) * Dy (Bounds layer)"
  shows "\<exists>img s'. ApplyCorrosion rnd layer col numIterations numSeeds s = Inr (img, s')
           \<and> rgba_wf img \<and> Rect img = Bounds layer"
proof -
  let ?b = "Bounds layer"
  let ?n = "Dx ?b * Dy ?b"
  let ?g0 = "replicate (nat ?n) False"
  from assms(1-4) have n: "0 \<le> ?n" by (simp add: Dx_def Dy_def)
  then have mk: "make_r ?n False = Inr ?g0" by (simp add: make_r_def)
  have len0: "int (length ?g0) = ?n" using n by simp
  obtain perm s1 where perm: "rand_Perm rnd ?n s = (perm, s1)" by (cases "rand_Perm rnd ?n s")
  with assms(5) have pr: "\<forall>i \<in> set perm. 0 \<le> i \<and> i < int (length ?g0)"
    using len0 by simp
  have "perm \<noteq> [] \<longrightarrow> Dx ?b \<noteq> 0"
  proof
    assume "perm \<noteq> []"
    then obtain i where "i \<in> set perm" by (cases perm) auto
    with pr len0 have "0 < ?n" by force
    then show "Dx ?b \<noteq> 0" by auto
  qed
  from corrosion_seeds_total[OF pr this] obtain cur1 where
    seeds: "corrosion_seeds layer ?b perm ?g0 numSeeds = Inr cur1" and l1: "length cur1 = length ?g0"
    by blast
  have "\<exists>r. fold_r (corrosion_step rnd layer) [0..numIterations - 1] (cur1, ?g0, s1) = Inr r \<and>
          (int (length (fst r)) = ?n \<and> length (fst (snd r)) = length (fst r))"
  proof (rule fold_r_total[where P = "\<lambda>t. int (length (fst t)) = ?n \<and> length (fst (snd t)) = length (fst t)"])
    show "int (length (fst (cur1, ?g0, s1))) = ?n \<and>
          length (fst (snd (cur1, ?g0, s1))) = length (fst (cur1, ?g0, s1))"
      using l1 len0 by simp
  next
    fix i and a :: "bool list \<times> bool list \<times> 'a"
    assume a: "int (length (fst a)) = ?n \<and> length (fst (snd a)) = length (fst a)"
    from corrosion_step_total[OF assms(1,2), of a rnd i] a
    show "\<exists>a'. corrosion_step rnd layer i a = Inr a' \<and>
            (int (length (fst a')) = ?n \<and> length (fst (snd a')) = length (fst a'))"
      by auto
  qed
  then obtain cur2 prev2 s2 where
    iter: "fold_r (corrosion_step rnd layer) [0..numIterations - 1] (cur1, ?g0, s1) = Inr (cur2, prev2, s2)"
    and l2: "int (length prev2) = ?n" by auto
  from assms(1-4) obtain p where p: "NewRGBA ?b = Inr p"
    by (auto simp: NewRGBA_def Dx_def Dy_def)
  have "\<exists>img. fold_r (\<lambda>y. fold_r (corrosion_paint ?b prev2 col y) [MinX ?b..MaxX ?b - 1])
              [MinY ?b..MaxY ?b - 1] p = Inr img \<and> (rgba_wf img \<and> Rect img = ?b)"
    by (rule corrosion_paint_loop_total[OF assms(1,2) l2]) (simp_all add: NewRGBA_wf[OF p])
  then obtain img where
    paint: "fold_r (\<lambda>y. fold_r (corrosion_paint ?b prev2 col y) [MinX ?b..MaxX ?b - 1])
              [MinY ?b..MaxY ?b - 1] p = Inr img" and wf: "rgba_wf img \<and> Rect img = ?b" by blast
  have "ApplyCorrosion rnd layer col numIterations numSeeds s = Inr (img, s2)"
    by (simp add: ApplyCorrosion_def Let_def bind_r_def mk perm seeds iter p paint)
  with wf show ?thesis by blast
qed

text \<open>
  Whenever an engine returns, the buffer is a fresh \<^verbatim>\<open>image.RGBA\<close> with the rectangle
  of the layer. The layer itself is an argument read through \<^verbatim>\<open>Bounds\<close> and \<^verbatim>\<open>At\<close>
  only; no engine writes to it.
\<close>

lemma engines_keep_bounds:
  "applyEffect F rnd layer colorA colorB numColors direction s = Some (Inr (img, s')) \<Longrightarrow>
     rgba_wf img \<and> Rect img = Bounds layer"
  "ApplyGlowEffect F rnd layer colorA colorB s = Inr (img, s') \<Longrightarrow>
     rgba_wf img \<and> Rect img = Bounds layer"
  "ApplyCorrosion rnd layer col numIterations numSeeds s = Inr (img, s') \<Longrightarrow>
     rgba_wf img \<and> Rect img = Bounds layer"
proof -
  assume a: "applyEffect F rnd layer colorA colorB numColors direction s = Some (Inr (img, s'))"
  then obtain p gradient where
    p: "NewRGBA (Bounds layer) = Inr p" and
    rows: "effect_rows rnd layer gradient numColors direction
             (if direction = -1 then MinY (Bounds layer) else MaxY (Bounds layer) - 1) (p, s)
           = Some (Inr (img, s'))"
    by (auto simp: applyEffect_def Let_def split: sum.splits)
  from effect_rows_inv[OF rows] NewRGBA_effect_inv[OF p]
  show "rgba_wf img \<and> Rect img = Bounds layer" by (simp add: effect_inv_def)
next
  assume a: "ApplyGlowEffect F rnd layer colorA colorB s = Inr (img, s')"
  then have "0 \<le> Dx (Bounds layer)" "0 \<le> Dy (Bounds layer)"
    by (auto simp: ApplyGlowEffect_def NewRGBA_def split: sum.splits if_splits)
  from ApplyGlowEffect_returns[OF this, of F rnd colorA colorB s] a
  show "rgba_wf img \<and> Rect img = Bounds layer" by auto
next
  assume "ApplyCorrosion rnd layer col numIterations numSeeds s = Inr (img, s')"
  from ApplyCorrosion_paint_inv[OF this]
  show "rgba_wf img \<and> Rect img = Bounds layer" by (simp add: paint_inv_def)
qed

text \<open>
  C7 states that every engine call returns a new buffer with the bounds of the layer.
  \<^verbatim>\<open>ApplyCorrosion\<close> sizes its two states by \<^verbatim>\<open>Dx * Dy\<close> but indexes them by
  \<^verbatim>\<open>y*Dx + x\<close> with \<^verbatim>\<open>x\<close> and \<^verbatim>\<open>y\<close> running from \<^verbatim>\<open>bounds.Min\<close>: on the layer of one
  set pixel with the rectangle (1,1)-(2,2) the first iteration reads
  \<^verbatim>\<open>corrosionPrev[2]\<close> in a slice of length 1 and the call panics.
\<close>

theorem ApplyCorrosion_shifted_origin_panics:
  "ApplyCorrosion (mock_rand 1 0) (solid_layer (rect 1 1 2 2)) (opaque 255 0 0) 1 1 0 =
     Inl IndexOutOfRange"
  by code_simp

subsection \<open>C8: the rule of the later glow passes\<close>

lemma glow_numNeighbors_card:
  "glow_numNeighbors e b c x y = int (spec_glow_neighbor_count e b c x y)"
proof -
  have "{p. (case p of (u, v) \<Rightarrow> effect_alpha e u v \<noteq> 0 \<and> RGBA_At e u v \<noteq> c)} \<inter> set (neighbors3x3 b x y)
        = Set.filter (\<lambda>(u, v). point_In u v b \<and> effect_alpha e u v \<noteq> 0 \<and> RGBA_At e u v \<noteq> c) (block3x3 x y)"
    by (auto simp: set_neighbors3x3)
  then show ?thesis
    by (simp add: glow_numNeighbors_def count_cells_filter spec_glow_neighbor_count_def
          distinct_length_filter[OF distinct_neighbors3x3])
qed

lemma fill_fold_At:
  assumes "rgba_wf e"
  shows "RGBA_At (fold (\<lambda>(u, v) e. if effect_alpha e u v = 0 then RGBA_Set e u v c else e) xs e) u v =
           (if (u, v) \<in> set xs \<and> point_In u v (Rect e) \<and> effect_alpha e u v = 0 then c
            else RGBA_At e u v)"
  using assms
proof (induction xs arbitrary: e)
  case Nil
  then show ?case by simp
next
  case (Cons ab xs)
  obtain a b where ab: "ab = (a, b)" by (cases ab)
  let ?e1 = "if effect_alpha e a b = 0 then RGBA_Set e a b c else e"
  have wf1: "rgba_wf ?e1" and r1: "Rect ?e1 = Rect e" using Cons.prems by auto
  have at1: "RGBA_At ?e1 u v =
      (if u = a \<and> v = b \<and> point_In a b (Rect e) \<and> effect_alpha e a b = 0 then c else RGBA_At e u v)"
    using Cons.prems by (auto simp: RGBA_At_Set)
  show ?case
    using Cons.IH[OF wf1] at1 r1
    by (auto simp: ab effect_alpha_def)
qed

text \<open>
  C8: in a pass with gradient index \<open>k > 0\<close>, the pixel at \<open>(x, y)\<close> changes the
  overlay exactly when it is unset on the layer, set on the overlay with a colour other
  than \<^verbatim>\<open>gradient[k]\<close>, has at least three such cells in its 3x3 block (the block
  within the bounds, the pixel itself included, as the loops count), and the sample is
  not below 0.1; then every unset cell of the block takes \<^verbatim>\<open>gradient[k]\<close> and every
  other pixel keeps its colour.
\<close>

theorem glow_propagation_rule:
  assumes "rgba_wf e" "Rect e = Bounds layer" "0 < k"
    and "glow_pixel rnd layer gradient k (gradient ! k) y x (e, s) = (e', s')"
  shows "if spec_glow_triggers rnd layer e (gradient ! k) x y s
         then \<forall>u v. RGBA_At e' u v =
                (if (u, v) \<in> block3x3 x y \<and> point_In u v (Bounds layer) \<and> effect_alpha e u v = 0
                 then gradient ! k else RGBA_At e u v)
         else e' = e"
proof -
  let ?c = "gradient ! k"
  show ?thesis
  proof (cases "spec_glow_triggers rnd layer e ?c x y s")
    case False
    with assms(3,4) show ?thesis
      by (auto simp: glow_pixel_def glow_propagate_pixel_def spec_glow_triggers_def Let_def
            glow_numNeighbors_card minNeighbors_def split: prod.splits if_splits)
  next
    case True
    with assms(3,4) have "e' = glow_fill (Bounds layer) ?c x y e"
      by (auto simp: glow_pixel_def glow_propagate_pixel_def spec_glow_triggers_def Let_def
            glow_numNeighbors_card minNeighbors_def split: prod.splits if_splits)
    with True assms(1,2) show ?thesis
      by (simp add: glow_fill_def fill_fold_At set_neighbors3x3)
  qed
qed

text \<open>
  C8: the theorem at the corner pixel of the overlay left by the first pass around a
  single set pixel: the corner fills the unset centre of its block.
\<close>

theorem glow_propagation_rule_witness:
  "rgba_wf ring_overlay \<and> Rect ring_overlay = Bounds dot_layer \<and> (0 :: nat) < 1 \<and>
   glow_pixel (mock_rand 1 0) dot_layer red_blue_3 1 (red_blue_3 ! 1) 0 0 (ring_overlay, 0) =
     (ring_overlay\<lparr>Pix := (Pix ring_overlay)[4 := px 127 0 127 255]\<rparr>, 1) \<and>
   spec_glow_triggers (mock_rand 1 0) dot_layer ring_overlay (red_blue_3 ! 1) 0 0 0 \<and>
   RGBA_At (ring_overlay\<lparr>Pix := (Pix ring_overlay)[4 := px 127 0 127 255]\<rparr>) 1 1 = red_blue_3 ! 1 \<and>
   RGBA_At (ring_overlay\<lparr>Pix := (Pix ring_overlay)[4 := px 127 0 127 255]\<rparr>) 2 2 =
     RGBA_At ring_overlay 2 2"
proof -
  let ?e' = "ring_overlay\<lparr>Pix := (Pix ring_overlay)[4 := px 127 0 127 255]\<rparr>"
  have wf: "rgba_wf ring_overlay"
    by (simp add: rgba_wf_def ring_overlay_def rect_def Dx_def Dy_def)
  have r: "Rect ring_overlay = Bounds dot_layer"
    by (simp add: ring_overlay_def dot_layer_def)
  have k: "(0 :: nat) < 1"
    by simp
  have run: "glow_pixel (mock_rand 1 0) dot_layer red_blue_3 1 (red_blue_3 ! 1) 0 0 (ring_overlay, 0) =
     (?e', 1)"
    by code_simp
  have trig: "spec_glow_triggers (mock_rand 1 0) dot_layer ring_overlay (red_blue_3 ! 1) 0 0 0"
    by code_simp
  from glow_propagation_rule [OF wf r k run] trig
  have all: "\<forall>u v. RGBA_At ?e' u v =
      (if (u, v) \<in> block3x3 0 0 \<and> point_In u v (Bounds dot_layer) \<and> effect_alpha ring_overlay u v = 0
       then red_blue_3 ! 1 else RGBA_At ring_overlay u v)"
    by simp
  have c: "(1, 1) \<in> block3x3 0 0 \<and> point_In 1 1 (Bounds dot_layer) \<and> effect_alpha ring_overlay 1 1 = 0"
    by code_simp
  have o: "(2, 2) \<notin> block3x3 0 0"
    by code_simp
  from all c have "RGBA_At ?e' 1 1 = red_blue_3 ! 1"
    by simp
  moreover from all o have "RGBA_At ?e' 2 2 = RGBA_At ring_overlay 2 2"
    by simp
  ultimately show ?thesis
    using wf r k run trig by blast
qed

subsection \<open>C9: the glow of an empty layer\<close>

lemma glow_pixel_transparent:
  assumes "\<forall>x y. layer_alpha layer x y = 0" "\<forall>x y. effect_alpha p x y = 0"
  shows "glow_pixel rnd layer gradient colorIndex c y x (p, s) = (p, s)"
  using assms by (simp add: glow_pixel_def glow_seed_pixel_def glow_propagate_pixel_def)

lemma glow_pass_transparent:
  assumes "\<forall>x y. layer_alpha layer x y = 0" "\<forall>x y. effect_alpha p x y = 0"
  shows "glow_pass rnd layer gradient ic (p, s) = (p, s)"
  unfolding glow_pass_def
  by (intro fold_fixed glow_pixel_transparent assms)

text \<open>
  C9: on a layer with no pixel set (and a rectangle without a negative dimension, as
  every image has), \<^verbatim>\<open>ApplyGlowEffect\<close> returns an overlay with no pixel set, for every
  pair of colours and every random source; it draws no random sample.
\<close>

theorem ApplyGlowEffect_transparent:
  assumes "0 \<le> Dx (Bounds layer)" "0 \<le> Dy (Bounds layer)"
    and "\<forall>x y. layer_alpha layer x y = 0"
  shows "\<exists>img. ApplyGlowEffect F rnd layer colorA colorB s = Inr (img, s) \<and>
           Rect img = Bounds layer \<and> (\<forall>x y. effect_alpha img x y = 0)"
proof -
  from assms(1,2) obtain p where p: "NewRGBA (Bounds layer) = Inr p"
    by (auto simp: NewRGBA_def)
  have z: "\<forall>x y. effect_alpha p x y = 0" using effect_alpha_NewRGBA[OF p] by simp
  obtain gradient where g: "build_gradient F colorA colorB glow_numColors = Inr gradient"
    by (auto simp: build_gradient_def glow_numColors_def)
  have "fold (glow_pass rnd layer gradient) (enumerate 0 gradient) (p, s) = (p, s)"
    by (intro fold_fixed glow_pass_transparent assms(3) z)
  then have "ApplyGlowEffect F rnd layer colorA colorB s = Inr (p, s)"
    by (simp add: ApplyGlowEffect_def p g)
  with z NewRGBA_wf[OF p] show ?thesis by auto
qed

text \<open>C9: the theorem at an empty layer of 2x2 pixels.\<close>

theorem ApplyGlowEffect_transparent_witness:
  "0 \<le> Dx (Bounds (clear_layer (rect 0 0 2 2))) \<and>
   0 \<le> Dy (Bounds (clear_layer (rect 0 0 2 2))) \<and>
   (\<forall>x y. layer_alpha (clear_layer (rect 0 0 2 2)) x y = 0) \<and>
   (\<exists>img. ApplyGlowEffect exact_ops (mock_rand 1 0) (clear_layer (rect 0 0 2 2))
             (opaque 255 0 0) (opaque 0 0 255) 0 = Inr (img, 0) \<and>
          Rect img = Bounds (clear_layer (rect 0 0 2 2)) \<and>
          (\<forall>x y. effect_alpha img x y = 0))"
proof -
  have w: "0 \<le> Dx (Bounds (clear_layer (rect 0 0 2 2)))"
    and h: "0 \<le> Dy (Bounds (clear_layer (rect 0 0 2 2)))"
    by (simp_all add: clear_layer_def rect_def Dx_def Dy_def)
  have t: "\<forall>x y. layer_alpha (clear_layer (rect 0 0 2 2)) x y = 0"
    by (simp add: layer_alpha_def image_At_def clear_layer_def color_zero_def)
  from ApplyGlowEffect_transparent [OF w h t, where F = exact_ops and rnd = "mock_rand 1 0"
      and colorA = "opaque 255 0 0" and colorB = "opaque 0 0 255" and s = 0] w h t
  show ?thesis
    by blast
qed

subsection \<open>C10: corrosion without iterations\<close>

text \<open>
  On a layer whose rectangle starts at the origin, with no iteration, the seeds stay in
  the current state, the final loop paints from the previous state, which is still
  empty, and the buffer returned has no pixel set, whatever the seed count.
\<close>

lemma ApplyCorrosion_zero_iterations_at_origin:
  assumes "MinX (Bounds layer) = 0" "MinY (Bounds layer) = 0"
    and "0 \<le> MaxX (Bounds layer)" "0 \<le> MaxY (Bounds layer)"
    and "\<forall>i \<in> set (fst (rand_Perm rnd (Dx (Bounds layer) * Dy (Bounds layer)) s)).
           0 \<le> i \<and> i < Dx (Bounds layer) * Dy (Bounds layer)"
    and "numIterations \<le> 0"
  shows "\<exists>img s'. ApplyCorrosion rnd layer col numIterations numSeeds s = Inr (img, s')
           \<and> Rect img = Bounds layer \<and> (\<forall>x y. effect_alpha img x y = 0)"
proof -
  let ?b = "Bounds layer"
  let ?n = "Dx ?b * Dy ?b"
  let ?g0 = "replicate (nat ?n) False"
  from assms(1-4) have n: "0 \<le> ?n" by (simp add: Dx_def Dy_def)
  then have mk: "make_r ?n False = Inr ?g0" by (simp add: make_r_def)
  have len0: "int (length ?g0) = ?n" using n by simp
  obtain perm s1 where perm: "rand_Perm rnd ?n s = (perm, s1)" by (cases "rand_Perm rnd ?n s")
  with assms(5) have pr: "\<forall>i \<in> set perm. 0 \<le> i \<and> i < int (length ?g0)"
    using len0 by simp
  have "perm \<noteq> [] \<longrightarrow> Dx ?b \<noteq> 0"
  proof
    assume "perm \<noteq> []"
    then obtain i where "i \<in> set perm" by (cases perm) auto
    with pr len0 have "0 < ?n" by force
    then show "Dx ?b \<noteq> 0" by auto
  qed
  from corrosion_seeds_total[OF pr this] obtain cur1 where
    seeds: "corrosion_seeds layer ?b perm ?g0 numSeeds = Inr cur1"
    by blast
  have iter: "fold_r (corrosion_step rnd layer) [0..numIterations - 1] (cur1, ?g0, s1) =
      Inr (cur1, ?g0, s1)"
    using assms(6) by simp
  from assms(1-4) obtain p where p: "NewRGBA ?b = Inr p"
    by (auto simp: NewRGBA_def Dx_def Dy_def)
  have "\<exists>img. fold_r (\<lambda>y. fold_r (corrosion_paint ?b ?g0 col y) [MinX ?b..MaxX ?b - 1])
              [MinY ?b..MaxY ?b - 1] p = Inr img \<and> img = p"
  proof (rule corrosion_paint_loop_total[OF assms(1,2) len0])
    show "p = p" ..
  next
    fix x y q
    assume "point_In x y ?b" "?g0 ! nat (y * Dx ?b + x)"
    with origin_index_range[OF assms(1,2), of x y] n
    show "RGBA_Set q x y (RGBAModel_Convert col) = p" by simp
  qed
  then have paint: "fold_r (\<lambda>y. fold_r (corrosion_paint ?b ?g0 col y) [MinX ?b..MaxX ?b - 1])
              [MinY ?b..MaxY ?b - 1] p = Inr p" by simp
  have "ApplyCorrosion rnd layer col numIterations numSeeds s = Inr (p, s1)"
    by (simp add: ApplyCorrosion_def Let_def bind_r_def mk perm seeds iter p paint)
  with NewRGBA_wf[OF p] effect_alpha_NewRGBA[OF p] show ?thesis by auto
qed

text \<open>
  C10 states that with \<^verbatim>\<open>numIterations = 0\<close> every layer gets a fully transparent
  buffer. On the layer of one set pixel with the rectangle (1,1)-(2,2) the final loop
  reads \<^verbatim>\<open>corrosionPrev[2]\<close> in a slice of length 1 and the call panics: the indexing
  by \<^verbatim>\<open>y*Dx + x\<close> from \<^verbatim>\<open>bounds.Min\<close> shown under C7.
\<close>

theorem ApplyCorrosion_zero_iterations_shifted_panics:
  "ApplyCorrosion (mock_rand 1 0) (solid_layer (rect 1 1 2 2)) (opaque 255 0 0) 0 1 0 =
     Inl IndexOutOfRange"
  by code_simp

end
